theory Spec2Isabelle
  imports Main "HOL-Library.Word" "HOL-Library.Signed_Division" "HOL-Library.Multiset"
begin

section \<open>Machine integers\<close>

text \<open>
  The C++ type \<open>int\<close> is a 32-bit two's-complement word. Comparisons read it through
  \<open>sint\<close> (written \<open>\<le>s\<close>, \<open><s\<close>); \<open>+\<close>, \<open>-\<close> and \<open>*\<close> wrap around, which is what the usual
  compilers produce where the C++ standard leaves signed overflow undefined. Division
  and remainder truncate towards zero (\<open>sdiv\<close>, \<open>smod\<close> on the signed readings).
\<close>

type_synonym cint = "32 word"

definition int_div :: "cint \<Rightarrow> cint \<Rightarrow> cint" where
  "int_div a b = word_of_int (sint a sdiv sint b)"

definition int_mod :: "cint \<Rightarrow> cint \<Rightarrow> cint" where
  "int_mod a b = word_of_int (sint a smod sint b)"

section \<open>Card\<close>

text \<open>The field \<open>value\<close> of the class is \<open>card_value\<close> here, \<open>value\<close> being a keyword.\<close>

record card =
  card_value :: char
  revealed :: bool
  matched :: bool

definition Card :: "char \<Rightarrow> card" where
  "Card v = \<lparr>card_value = v, revealed = False, matched = False\<rparr>"

definition getValue :: "card \<Rightarrow> char" where
  "getValue cd = card_value cd"

definition isRevealed :: "card \<Rightarrow> bool" where
  "isRevealed cd = revealed cd"

definition isMatched :: "card \<Rightarrow> bool" where
  "isMatched cd = matched cd"

definition reveal :: "card \<Rightarrow> card" where
  "reveal cd = (if \<not> matched cd then cd\<lparr>revealed := True\<rparr> else cd)"

definition hide :: "card \<Rightarrow> card" where
  "hide cd = (if \<not> matched cd then cd\<lparr>revealed := False\<rparr> else cd)"

definition setMatched :: "card \<Rightarrow> card" where
  "setMatched cd = cd\<lparr>matched := True, revealed := True\<rparr>"

text \<open>A card's life is a sequence of calls of its three mutators.\<close>

datatype card_op = Reveal | Hide | SetMatched

fun card_step :: "card \<Rightarrow> card_op \<Rightarrow> card" where
  "card_step cd Reveal = reveal cd"
| "card_step cd Hide = hide cd"
| "card_step cd SetMatched = setMatched cd"

definition card_run :: "card_op list \<Rightarrow> card \<Rightarrow> card" where
  "card_run ops cd = foldl card_step cd ops"

section \<open>Board\<close>

subsection \<open>The value pool and \<open>makeValues\<close>\<close>

definition pool :: string where
  "pool = ''ABCDEFGHIJKLMNOPQRSTUVWXYZ'' @ ''abcdefghijklmnopqrstuvwxyz''
        @ ''0123456789'' @ ''!@#$%^&*''"

text \<open>
  The two loops of \<open>makeValues\<close>. The counter \<open>i\<close> is a \<open>size_t\<close> that never exceeds
  \<open>pairCount\<close>, and \<open>vals\<close> never grows past \<open>pairCount\<close>, so the cast \<open>(int)vals.size()\<close>
  is exact and both are kept as natural numbers.
\<close>

function makeValues_first :: "nat \<Rightarrow> cint \<Rightarrow> char list \<Rightarrow> char list" where
  "makeValues_first i pairCount vals =
     (if i < length pool \<and> int (length vals) < sint pairCount
      then makeValues_first (i + 1) pairCount (vals @ [pool ! i])
      else vals)"
  by pat_completeness auto
termination
  by (relation "measure (\<lambda>(i, pairCount, vals). length pool - i)") auto

declare makeValues_first.simps [simp del]

function makeValues_repeat :: "nat \<Rightarrow> cint \<Rightarrow> char list \<Rightarrow> char list" where
  "makeValues_repeat i pairCount vals =
     (if int (length vals) < sint pairCount
      then makeValues_repeat (i + 1) pairCount (vals @ [pool ! (i mod length pool)])
      else vals)"
  by pat_completeness auto
termination
  by (relation "measure (\<lambda>(i, pairCount, vals). nat (sint pairCount - int (length vals)))") auto

declare makeValues_repeat.simps [simp del]

definition makeValues :: "cint \<Rightarrow> char list" where
  "makeValues pairCount = makeValues_repeat 0 pairCount (makeValues_first 0 pairCount [])"

subsection \<open>Shuffling\<close>

text \<open>
  \<open>std::shuffle\<close> is library code. It is modelled as the exchange shuffle its contract
  describes: position \<open>i\<close>, from the last down to the second, is exchanged with a
  position drawn from \<open>0..i\<close>. The generator is the function \<open>gen\<close>: \<open>gen i\<close> is the raw
  draw used for position \<open>i\<close>, so the nondeterminism of \<open>random_device\<close> is a parameter.
\<close>

definition swap :: "nat \<Rightarrow> nat \<Rightarrow> 'a list \<Rightarrow> 'a list" where
  "swap i j xs = xs[i := xs ! j, j := xs ! i]"

fun shuffle_from :: "nat \<Rightarrow> (nat \<Rightarrow> nat) \<Rightarrow> 'a list \<Rightarrow> 'a list" where
  "shuffle_from 0 gen xs = xs"
| "shuffle_from (Suc i) gen xs =
     shuffle_from i gen (swap (Suc i) (gen (Suc i) mod Suc (Suc i)) xs)"

definition shuffle :: "(nat \<Rightarrow> nat) \<Rightarrow> 'a list \<Rightarrow> 'a list" where
  "shuffle gen xs = shuffle_from (length xs - 1) gen xs"

subsection \<open>Construction\<close>

datatype error =
    Invalid_configuration  \<comment> \<open>the \<open>runtime_error\<close> thrown by the constructor\<close>
  | Length_error           \<comment> \<open>\<open>std::length_error\<close>, thrown by \<open>vector::reserve\<close>\<close>

record board =
  rows :: cint
  cols :: cint
  cards :: "card list"

text \<open>The loop that lays every value into the deck twice.\<close>

function deck_loop :: "nat \<Rightarrow> cint \<Rightarrow> char list \<Rightarrow> char list \<Rightarrow> char list" where
  "deck_loop i pairs vals deck =
     (if int i < sint pairs
      then deck_loop (i + 1) pairs vals (deck @ [vals ! i, vals ! i])
      else deck)"
  by pat_completeness auto
termination
  by (relation "measure (\<lambda>(i, pairs, vals, deck). nat (sint pairs - int i))") auto

declare deck_loop.simps [simp del]

text \<open>
  \<open>deck.reserve(rows * cols)\<close> converts its \<open>int\<close> argument to \<open>size_t\<close>: a negative
  argument becomes a size beyond \<open>max_size()\<close>, and \<open>reserve\<close> throws \<open>length_error\<close>.
  The product is negative only when it has wrapped. Running out of memory is not modelled.
\<close>

definition Board :: "cint \<Rightarrow> cint \<Rightarrow> (nat \<Rightarrow> nat) \<Rightarrow> error + board" where
  "Board r c gen =
     (if r \<le>s 0 \<or> c \<le>s 0 \<or> int_mod (r * c) 2 \<noteq> 0 then Inl Invalid_configuration
      else
        let pairs = int_div (r * c) 2;
            vals = makeValues pairs
        in if r * c <s 0 then Inl Length_error
           else
             let deck = deck_loop 0 pairs vals [];
                 deck' = shuffle gen deck
             in Inr \<lparr>rows = r, cols = c, cards = map Card deck'\<rparr>)"

definition getRows :: "board \<Rightarrow> cint" where
  "getRows b = rows b"

definition getCols :: "board \<Rightarrow> cint" where
  "getCols b = cols b"

definition getSize :: "board \<Rightarrow> cint" where
  "getSize b = rows b * cols b"

text \<open>The deck before it is shuffled, in closed form: every value twice, in order.\<close>

definition twice :: "'a list \<Rightarrow> 'a list" where
  "twice vals = concat (map (\<lambda>v. [v, v]) vals)"

subsection \<open>Cell access\<close>

text \<open>
  \<open>cards[r * cols + c]\<close>: the \<open>int\<close> index is converted to \<open>size_t\<close> (sign extension
  to 64 bits). The vector does not check the index; the theorems below only read cells
  whose index lies inside the vector.
\<close>

definition at_index :: "board \<Rightarrow> cint \<Rightarrow> cint \<Rightarrow> nat" where
  "at_index b r c = unat (scast (r * cols b + c) :: 64 word)"

definition at :: "board \<Rightarrow> cint \<Rightarrow> cint \<Rightarrow> card" where
  "at b r c = cards b ! at_index b r c"

definition revealAt :: "board \<Rightarrow> cint \<Rightarrow> cint \<Rightarrow> board" where
  "revealAt b r c = b\<lparr>cards := (cards b)[at_index b r c := reveal (at b r c)]\<rparr>"

definition hideAt :: "board \<Rightarrow> cint \<Rightarrow> cint \<Rightarrow> board" where
  "hideAt b r c = b\<lparr>cards := (cards b)[at_index b r c := hide (at b r c)]\<rparr>"

definition matchAt :: "board \<Rightarrow> cint \<Rightarrow> cint \<Rightarrow> board" where
  "matchAt b r c = b\<lparr>cards := (cards b)[at_index b r c := setMatched (at b r c)]\<rparr>"

fun allMatched_loop :: "card list \<Rightarrow> bool" where
  "allMatched_loop [] = True"
| "allMatched_loop (cd # cds) = (if \<not> isMatched cd then False else allMatched_loop cds)"

definition allMatched :: "board \<Rightarrow> bool" where
  "allMatched b = allMatched_loop (cards b)"

text \<open>
  A board is well formed when its vector holds \<open>rows * cols\<close> cells and that product fits
  an \<open>int\<close>; it is settled when every card that is not matched lies face down, which is
  how every pass through the loop of \<open>play\<close> finds it.
\<close>

definition board_ok :: "board \<Rightarrow> bool" where
  "board_ok b = (0 < sint (rows b) \<and> 0 < sint (cols b)
     \<and> sint (rows b) * sint (cols b) < 2 ^ 31
     \<and> int (length (cards b)) = sint (rows b) * sint (cols b))"

definition settled :: "board \<Rightarrow> bool" where
  "settled b = (\<forall>cd \<in> set (cards b). isRevealed cd = isMatched cd)"

section \<open>The console\<close>

text \<open>
  \<open>cin\<close> is the list of lines still to be read, \<open>cout\<close> the list of things written so
  far. A chain of \<open><<\<close> is recorded piece by piece; line ends and the layout of numbers
  and of the board picture are not recorded. \<open>getline\<close> fails once the input is used up,
  and keeps failing.
\<close>

datatype event =
    Say string
  | Num cint
  | Render "char list list"

type_synonym console = "string list \<times> event list"

definition put :: "event list \<Rightarrow> console \<Rightarrow> console" where
  "put es w = (fst w, snd w @ es)"

definition getline :: "console \<Rightarrow> string option \<times> console" where
  "getline w = (case fst w of [] \<Rightarrow> (None, w) | line # rest \<Rightarrow> (Some line, (rest, snd w)))"

definition shown :: "card \<Rightarrow> char" where
  "shown cd = (if isMatched cd then getValue cd
               else if isRevealed cd then getValue cd
               else CHR ''*'')"

definition display :: "board \<Rightarrow> console \<Rightarrow> console" where
  "display b w =
     put [Render (map (\<lambda>r. map (\<lambda>c. shown (at b (of_nat r) (of_nat c)))
                                [0 ..< nat (sint (cols b))])
                      [0 ..< nat (sint (rows b))])] w"

subsection \<open>Reading integers from a line\<close>

text \<open>
  \<open>ss >> r\<close> on a \<open>stringstream\<close> is library code, modelled by its contract: skip white
  space, read an optional sign and the longest run of decimal digits, and fail when there
  is no digit or the number does not fit an \<open>int\<close>. On success the rest of the line stays
  in the stream.
\<close>

definition isspace :: "char \<Rightarrow> bool" where
  "isspace ch = (ch = CHR '' '' \<or> ch = CHR 0x09 \<or> ch = CHR 0x0A \<or> ch = CHR 0x0B
                 \<or> ch = CHR 0x0C \<or> ch = CHR 0x0D)"

definition isdigit :: "char \<Rightarrow> bool" where
  "isdigit ch = (48 \<le> (of_char ch :: int) \<and> (of_char ch :: int) \<le> 57)"

fun decimal :: "int \<Rightarrow> string \<Rightarrow> int" where
  "decimal acc [] = acc"
| "decimal acc (d # ds) = decimal (acc * 10 + (of_char d - 48)) ds"

text \<open>The digits read, with their sign, as an \<open>int\<close>: none when there is no digit or the
  number is out of range.\<close>

definition number :: "bool \<Rightarrow> string \<Rightarrow> cint option" where
  "number neg ds =
     (let v = (if neg then - decimal 0 ds else decimal 0 ds)
      in if ds = [] \<or> v < - (2 ^ 31) \<or> 2 ^ 31 \<le> v then None else Some (word_of_int v))"

definition extract_int :: "string \<Rightarrow> (cint \<times> string) option" where
  "extract_int s =
     (let s1 = dropWhile isspace s;
          neg = (s1 \<noteq> [] \<and> hd s1 = CHR ''-'');
          s2 = (if s1 \<noteq> [] \<and> (hd s1 = CHR ''-'' \<or> hd s1 = CHR ''+'') then tl s1 else s1)
      in case number neg (takeWhile isdigit s2) of
           None \<Rightarrow> None
         | Some v \<Rightarrow> Some (v, dropWhile isdigit s2))"

text \<open>\<open>ss >> r >> c\<close>: the second extraction runs only if the first succeeded.\<close>

definition extract2 :: "string \<Rightarrow> (cint \<times> cint) option" where
  "extract2 line =
     (case extract_int line of
        None \<Rightarrow> None
      | Some (r, rest) \<Rightarrow>
          (case extract_int rest of None \<Rightarrow> None | Some (c, rest') \<Rightarrow> Some (r, c)))"

section \<open>Game\<close>

record game =
  board :: board
  moves :: cint

definition Game :: "cint \<Rightarrow> cint \<Rightarrow> (nat \<Rightarrow> nat) \<Rightarrow> error + game" where
  "Game r c gen =
     (case Board r c gen of Inl e \<Rightarrow> Inl e | Inr b \<Rightarrow> Inr \<lparr>board = b, moves = 0\<rparr>)"

definition valid :: "game \<Rightarrow> cint \<Rightarrow> cint \<Rightarrow> bool" where
  "valid g r c = (0 \<le>s r \<and> r <s getRows (board g) \<and> 0 \<le>s c \<and> c <s getCols (board g))"

type_synonym pos = "cint \<times> cint"

text \<open>The test of \<open>readPos\<close> on one line, and the pair it returns when the test holds.\<close>

definition parse_pos :: "game \<Rightarrow> string \<Rightarrow> pos option" where
  "parse_pos g line =
     (case extract2 line of
        None \<Rightarrow> None
      | Some (r, c) \<Rightarrow> if valid g (r - 1) (c - 1) then Some (r - 1, c - 1) else None)"

text \<open>
  The specification's wording of the same test (C10), for comparison with \<open>parse_pos\<close>: the line is cut into tokens at
  white space, and the first two tokens must each be an integer (an optional sign and
  decimal digits, nothing else) within the grid; whatever tokens follow are ignored.
\<close>

function tokens :: "string \<Rightarrow> string list" where
  "tokens s =
     (if dropWhile isspace s = [] then []
      else takeWhile (\<lambda>ch. \<not> isspace ch) (dropWhile isspace s)
           # tokens (dropWhile (\<lambda>ch. \<not> isspace ch) (dropWhile isspace s)))"
  by pat_completeness auto
termination
proof (relation "measure length")
  show "wf (measure length)" by simp
next
  fix s :: string
  assume ne: "dropWhile isspace s \<noteq> []"
  let ?s1 = "dropWhile isspace s"
  have "\<not> isspace (hd ?s1)" using ne by (rule hd_dropWhile)
  then have "dropWhile (\<lambda>ch. \<not> isspace ch) ?s1 = dropWhile (\<lambda>ch. \<not> isspace ch) (tl ?s1)"
    using ne by (cases ?s1) simp_all
  then have "length (dropWhile (\<lambda>ch. \<not> isspace ch) ?s1)
      = length (dropWhile (\<lambda>ch. \<not> isspace ch) (tl ?s1))"
    by (rule arg_cong)
  also have "\<dots> \<le> length (tl ?s1)" by (rule length_dropWhile_le)
  also have "\<dots> < length ?s1" using ne by simp
  also have "\<dots> \<le> length s" by (rule length_dropWhile_le)
  finally show "(dropWhile (\<lambda>ch. \<not> isspace ch) ?s1, s) \<in> measure length" by simp
qed

declare tokens.simps [simp del]

definition integer_token :: "string \<Rightarrow> int option" where
  "integer_token t =
     (let ds = (if t \<noteq> [] \<and> (hd t = CHR ''-'' \<or> hd t = CHR ''+'') then tl t else t)
      in if ds \<noteq> [] \<and> list_all isdigit ds
         then Some (if t \<noteq> [] \<and> hd t = CHR ''-'' then - decimal 0 ds else decimal 0 ds)
         else None)"

definition claimed_parse_pos :: "game \<Rightarrow> string \<Rightarrow> pos option" where
  "claimed_parse_pos g line =
     (case tokens line of
        t1 # t2 # ts \<Rightarrow>
          (case (integer_token t1, integer_token t2) of
             (Some r, Some c) \<Rightarrow>
               if 1 \<le> r \<and> r \<le> sint (rows (board g)) \<and> 1 \<le> c \<and> c \<le> sint (cols (board g))
               then Some (word_of_int (r - 1), word_of_int (c - 1))
               else None
           | _ \<Rightarrow> None)
      | _ \<Rightarrow> None)"

definition invalid_input :: string where
  "invalid_input = ''Invalid input. Use: <row> <col>  (e.g. 2 3)''"

text \<open>
  \<open>readPos\<close> loops until a line passes. When the input is used up \<open>getline\<close> fails for
  ever and the loop never ends: the value \<open>None\<close>.
\<close>

fun readPos :: "game \<Rightarrow> string \<Rightarrow> console \<Rightarrow> (pos \<times> console) option" where
  "readPos g prompt ([], out) = None"
| "readPos g prompt (line # rest, out) =
     (case parse_pos g line of
        Some p \<Rightarrow> Some (p, (rest, out @ [Say prompt]))
      | None \<Rightarrow> readPos g prompt (rest, out @ [Say prompt, Say invalid_input]))"

text \<open>
  One pass through the body of the loop of \<open>play\<close>. The result names the branch that
  ended the pass and the cells selected in it.
\<close>

datatype outcome =
    First_already_matched pos
  | Same_card pos
  | Second_already_matched pos pos
  | Match pos pos
  | Mismatch pos pos

definition first_prompt :: string where
  "first_prompt = ''Select first card (row col): ''"

definition second_prompt :: string where
  "second_prompt = ''Select second card (row col): ''"

definition turn :: "game \<Rightarrow> console \<Rightarrow> (outcome \<times> game \<times> console) option" where
  "turn g w =
     (let w = display (board g) w;
          w = put [Say ''Moves: '', Num (moves g)] w
      in case readPos g first_prompt w of
           None \<Rightarrow> None
         | Some ((r1, c1), w) \<Rightarrow>
             if isMatched (at (board g) r1 c1)
             then Some (First_already_matched (r1, c1), g,
                        put [Say ''That card is already matched. Choose another.''] w)
             else
               let g = g\<lparr>board := revealAt (board g) r1 c1\<rparr>;
                   w = display (board g) w
               in case readPos g second_prompt w of
                    None \<Rightarrow> None
                  | Some ((r2, c2), w) \<Rightarrow>
                      if r1 = r2 \<and> c1 = c2
                      then Some (Same_card (r1, c1),
                                 g\<lparr>board := hideAt (board g) r1 c1\<rparr>,
                                 put [Say ''You selected the same card twice. Try again.''] w)
                      else if isMatched (at (board g) r2 c2)
                      then Some (Second_already_matched (r1, c1) (r2, c2),
                                 g\<lparr>board := hideAt (board g) r1 c1\<rparr>,
                                 put [Say ''Second card already matched. Try again.''] w)
                      else
                        let g = g\<lparr>board := revealAt (board g) r2 c2\<rparr>;
                            w = display (board g) w;
                            g = g\<lparr>moves := moves g + 1\<rparr>
                        in if getValue (at (board g) r1 c1) = getValue (at (board g) r2 c2)
                           then
                             let w = put [Say ''MATCH! ('', Say [getValue (at (board g) r1 c1)],
                                          Say '')''] w;
                                 g = g\<lparr>board := matchAt (board g) r1 c1\<rparr>;
                                 g = g\<lparr>board := matchAt (board g) r2 c2\<rparr>
                             in Some (Match (r1, c1) (r2, c2), g, w)
                           else
                             let w = put [Say ''Not a match.'',
                                          Say ''Press Enter to continue and hide the two cards...''] w;
                                 w = snd (getline w);
                                 g = g\<lparr>board := hideAt (board g) r1 c1\<rparr>;
                                 g = g\<lparr>board := hideAt (board g) r2 c2\<rparr>
                             in Some (Mismatch (r1, c1) (r2, c2), g, w))"

text \<open>The console after the board and the counter have been shown at the head of a pass.\<close>

definition start_of_turn :: "game \<Rightarrow> console \<Rightarrow> console" where
  "start_of_turn g w = put [Say ''Moves: '', Num (moves g)] (display (board g) w)"

text \<open>The outcome and the game a pass ends with, without the console.\<close>

definition verdict :: "(outcome \<times> game \<times> console) option \<Rightarrow> (outcome \<times> game) option" where
  "verdict t = map_option (\<lambda>(oc, g, w). (oc, g)) t"

text \<open>
  Every pass that comes to an end has read at least one line, so the loop of \<open>play\<close>
  over a finite input either ends with all cards matched or hangs in \<open>readPos\<close>.
\<close>

lemma readPos_consumes:
  "readPos g prompt w = Some (p, w') \<Longrightarrow> length (fst w') < length (fst w)"
proof (induction g prompt w rule: readPos.induct)
  case (1 g prompt out)
  then show ?case by simp
next
  case (2 g prompt line rest out)
  then show ?case by (cases "parse_pos g line") (auto split: if_splits)
qed

lemma fst_put: "fst (put es w) = fst w"
  by (simp add: put_def)

lemma fst_display: "fst (display b w) = fst w"
  by (simp add: display_def put_def)

lemma getline_shrinks: "length (fst (snd (getline w))) \<le> length (fst w)"
  by (simp add: getline_def split: list.splits)

lemma turn_consumes:
  assumes "turn g w = Some (oc, g', w')"
  shows "length (fst w') < length (fst w)"
proof -
  obtain p1 w1 where
    r1: "readPos g first_prompt (put [Say ''Moves: '', Num (moves g)] (display (board g) w))
          = Some (p1, w1)"
    using assms unfolding turn_def Let_def by (auto split: option.splits)
  from readPos_consumes [OF r1] have l1: "length (fst w1) < length (fst w)"
    by (simp add: fst_put fst_display)
  show ?thesis
  proof (cases "isMatched (at (board g) (fst p1) (snd p1))")
    case True
    then show ?thesis
      using assms r1 l1 unfolding turn_def Let_def
      by (auto simp add: fst_put split: prod.splits)
  next
    case False
    define g1 where "g1 = g\<lparr>board := revealAt (board g) (fst p1) (snd p1)\<rparr>"
    obtain p2 w2 where
      r2: "readPos g1 second_prompt (display (board g1) w1) = Some (p2, w2)"
      using assms r1 False unfolding turn_def Let_def g1_def
      by (auto split: option.splits prod.splits)
    from readPos_consumes [OF r2] have l2: "length (fst w2) < length (fst w1)"
      by (simp add: fst_display)
    have "length (fst w') \<le> length (fst w2)"
      using assms r1 r2 False getline_shrinks [of "put [Say ''Not a match.'',
          Say ''Press Enter to continue and hide the two cards...'']
          (display (board (g1\<lparr>board := revealAt (board g1) (fst p2) (snd p2)\<rparr>)) w2)"]
      unfolding turn_def Let_def g1_def
      by (auto simp add: fst_put fst_display split: prod.splits if_splits)
    with l1 l2 show ?thesis by linarith
  qed
qed

function play_loop :: "game \<Rightarrow> console \<Rightarrow> (game \<times> console) option" where
  "play_loop g w =
     (if allMatched (board g) then Some (g, w)
      else case turn g w of
             None \<Rightarrow> None
           | Some (oc, g', w') \<Rightarrow> play_loop g' w')"
  by pat_completeness auto
termination
  by (relation "measure (\<lambda>(g, w). length (fst w))") (auto dest: turn_consumes)

declare play_loop.simps [simp del]

definition play :: "game \<Rightarrow> console \<Rightarrow> (game \<times> console) option" where
  "play g w =
     (let w = put [Say ''Memory Puzzle (no timers, press Enter when asked)'',
                   Say ''Board: '', Num (getRows (board g)), Say ''x'', Num (getCols (board g)),
                   Say ''Choose cards by entering row and column numbers separated by space.'',
                   Say ''Press Enter to start...''] w;
          w = snd (getline w)
      in case play_loop g w of
           None \<Rightarrow> None
         | Some (g, w) \<Rightarrow>
             Some (g, put [Say ''CONGRATULATIONS! All pairs matched.'',
                           Say ''Total moves: '', Num (moves g)]
                          (display (board g) w)))"

section \<open>The program\<close>

definition invalid_line :: string where
  "invalid_line = ''Invalid input. Using default 4x4.''"

definition invalid_dimensions :: string where
  "invalid_dimensions = ''Invalid board dimensions. Using default 4x4.''"

text \<open>
  The first part of \<open>main\<close>, up to the call of the constructor: the dimensions handed to
  \<open>Game\<close> and the console after the prompt.
\<close>

definition size_prompt :: "event list" where
  "size_prompt = [Say ''Enter board size (rows cols) or press Enter for default 4 4:'',
                  Say ''> '']"

definition startup :: "console \<Rightarrow> cint \<times> cint \<times> console" where
  "startup w =
     (let w = put size_prompt w;
          (l, w) = getline w;
          line = (case l of None \<Rightarrow> [] | Some s \<Rightarrow> s);
          (r, c, w) =
            (if line \<noteq> [] then
               (case extract2 line of
                  None \<Rightarrow> (4, 4, put [Say invalid_line] w)
                | Some (r, c) \<Rightarrow> (r, c, w))
             else (4, 4, w))
      in if r \<le>s 0 \<or> c \<le>s 0 \<or> int_mod (r * c) 2 \<noteq> 0
         then (4, 4, put [Say invalid_dimensions] w)
         else (r, c, w))"

definition what :: "error \<Rightarrow> string" where
  "what e = (case e of
      Invalid_configuration \<Rightarrow> ''Board must have positive rows/cols and an even number of cells.''
    | Length_error \<Rightarrow> ''vector::reserve'')"

text \<open>
  \<open>main\<close> returns the exit code, the console and what was written to \<open>cerr\<close>; \<open>None\<close>
  when the game never ends.
\<close>

definition main :: "(nat \<Rightarrow> nat) \<Rightarrow> console \<Rightarrow> (int \<times> console \<times> event list) option" where
  "main gen w =
     (let (r, c, w) = startup w
      in case Game r c gen of
           Inl e \<Rightarrow> Some (1, w, [Say ''Error: '', Say (what e)])
         | Inr g \<Rightarrow>
             (case play g w of
                None \<Rightarrow> None
              | Some (g, w) \<Rightarrow> Some (0, w, [])))"

text \<open>A small game for the examples: two rows, two columns, the cards A B B A.\<close>

definition example_game :: game where
  "example_game = \<lparr>board = \<lparr>rows = 2, cols = 2, cards = map Card ''ABBA''\<rparr>, moves = 0\<rparr>"

section \<open>Arithmetic of the 32-bit integers\<close>

lemma sint_mult_exact:
  fixes r c :: cint
  assumes "- (2^31) \<le> sint r * sint c" "sint r * sint c < 2^31"
  shows "sint (r * c) = sint r * sint c"
  using assms by (simp add: sint_word_ariths signed_take_bit_int_eq_self)

lemma odd_sint_mult: "odd (sint ((r::cint) * c)) \<longleftrightarrow> odd (sint r * sint c)"
  by (simp only: sint_word_ariths even_signed_take_bit_iff)

lemma smod_2_eq_0_iff: "(k::int) smod 2 = 0 \<longleftrightarrow> even k"
  by (auto simp add: smod_int_alt_def sgn_if)

lemma smod_2_range: "- 1 \<le> (k::int) smod 2 \<and> k smod 2 \<le> 1"
  by (auto simp add: smod_int_alt_def sgn_if)

lemma int_mod_2: "int_mod x 2 \<noteq> 0 \<longleftrightarrow> odd (sint x)"
proof -
  have "(word_of_int (sint x smod 2) :: cint) = 0 \<longleftrightarrow> sint x smod 2 = 0"
    using smod_2_range [of "sint x"]
    by (auto simp add: word_of_int_eq_0_iff dest: zdvd_imp_le)
  then show ?thesis
    by (simp add: int_mod_def smod_2_eq_0_iff)
qed

lemma sint_int_div_2: "sint (int_div x 2) = sint x sdiv 2"
proof -
  have "- (2^31) \<le> sint x" "sint x < 2^31"
    using sint_ge [of x] sint_lt [of x] by simp_all
  then have "- (2^31) \<le> sint x sdiv 2 \<and> sint x sdiv 2 < 2^31"
    by (auto simp add: signed_divide_int_def sgn_if)
  then show ?thesis
    by (simp add: int_div_def sint_sbintrunc' signed_take_bit_int_eq_self)
qed

lemma sint_int_div_2_nonneg: "0 \<le> sint x \<Longrightarrow> sint (int_div x 2) = sint x div 2"
  by (simp add: sint_int_div_2 signed_divide_int_def sgn_if)

section \<open>The values laid on the board\<close>

lemma length_pool: "length pool = 70"
  by (simp add: pool_def)

lemma distinct_pool: "distinct pool"
  by (simp add: pool_def)

lemma makeValues_first_eq:
  "makeValues_first i p vals = vals @ take (nat (sint p - int (length vals))) (drop i pool)"
proof (induction i p vals rule: makeValues_first.induct)
  case (1 i p vals)
  show ?case
  proof (cases "i < length pool \<and> int (length vals) < sint p")
    case True
    then have n: "nat (sint p - int (length vals)) = Suc (nat (sint p - int (length (vals @ [pool ! i]))))"
      by (simp) arith
    have d: "drop i pool = pool ! i # drop (Suc i) pool"
      using True by (simp add: Cons_nth_drop_Suc)
    show ?thesis
      using True "1.IH" by (subst makeValues_first.simps) (simp add: n d)
  next
    case False
    then show ?thesis by (subst makeValues_first.simps) auto
  qed
qed

lemma makeValues_repeat_eq:
  "makeValues_repeat i p vals =
     vals @ map (\<lambda>k. pool ! (k mod length pool)) [i ..< i + nat (sint p - int (length vals))]"
proof (induction i p vals rule: makeValues_repeat.induct)
  case (1 i p vals)
  show ?case
  proof (cases "int (length vals) < sint p")
    case True
    then have n: "nat (sint p - int (length vals)) = Suc (nat (sint p - int (length (vals @ [pool ! (i mod length pool)]))))"
      by simp
    show ?thesis
      using True "1.IH"
      by (subst makeValues_repeat.simps) (simp add: n upt_conv_Cons del: upt_Suc)
  next
    case False
    then show ?thesis by (subst makeValues_repeat.simps) auto
  qed
qed

lemma makeValues_eq:
  "makeValues p = take (nat (sint p)) pool
     @ map (\<lambda>k. pool ! (k mod length pool)) [0 ..< nat (sint p) - length pool]"
proof -
  have "nat (sint p - int (min (length pool) (nat (sint p)))) = nat (sint p) - length pool"
    by arith
  then show ?thesis
    by (simp add: makeValues_def makeValues_first_eq makeValues_repeat_eq)
qed

lemma length_makeValues: "length (makeValues p) = nat (sint p)"
  by (simp add: makeValues_eq)

lemma makeValues_small: "sint p \<le> 70 \<Longrightarrow> makeValues p = take (nat (sint p)) pool"
  by (simp add: makeValues_eq length_pool)

lemma nth_makeValues:
  assumes "i < nat (sint p)"
  shows "makeValues p ! i = pool ! (i mod length pool)"
proof (cases "i < length pool")
  case True
  then show ?thesis using assms by (simp add: makeValues_eq nth_append)
next
  case False
  have m: "(i - length pool) mod length pool = i mod length pool"
    using False by (simp add: le_mod_geq)
  have r: "i - length pool < nat (sint p) - length pool"
    using False assms by arith
  have "makeValues p ! i =
      map (\<lambda>k. pool ! (k mod length pool)) [0 ..< nat (sint p) - length pool] ! (i - length pool)"
    using False assms by (simp add: makeValues_eq nth_append)
  also have "\<dots> = pool ! ((i - length pool) mod length pool)"
    using r by (simp only: nth_map length_upt nth_upt diff_zero add_0)
  finally show ?thesis by (simp only: m)
qed

lemma deck_loop_eq:
  "deck_loop i p vals deck = deck @ concat (map (\<lambda>k. [vals ! k, vals ! k]) [i ..< nat (sint p)])"
proof (induction i p vals deck rule: deck_loop.induct)
  case (1 i p vals deck)
  show ?case
  proof (cases "int i < sint p")
    case True
    then have "i < nat (sint p)" by arith
    then have u: "[i ..< nat (sint p)] = i # [Suc i ..< nat (sint p)]"
      by (simp add: upt_conv_Cons)
    show ?thesis
      using True "1.IH" by (subst deck_loop.simps) (simp add: u)
  next
    case False
    then have "nat (sint p) \<le> i" by arith
    then show ?thesis using False by (subst deck_loop.simps) simp
  qed
qed

lemma deck_loop_twice:
  assumes "length vals = nat (sint p)"
  shows "deck_loop 0 p vals [] = twice vals"
proof -
  have "map (\<lambda>k. [vals ! k, vals ! k]) [0 ..< length vals] = map (\<lambda>v. [v, v]) vals"
    by (rule nth_equalityI) simp_all
  then show ?thesis
    by (simp add: deck_loop_eq twice_def flip: assms)
qed

lemma length_twice: "length (twice xs) = 2 * length xs"
  by (induction xs) (simp_all add: twice_def)

lemma set_twice: "set (twice xs) = set xs"
  by (induction xs) (simp_all add: twice_def)

lemma count_list_twice: "count_list (twice xs) v = 2 * count_list xs v"
  by (induction xs) (simp_all add: twice_def)

lemma length_swap: "length (swap i j xs) = length xs"
  by (simp add: swap_def)

lemma mset_swap': "i < length xs \<Longrightarrow> j < length xs \<Longrightarrow> mset (swap i j xs) = mset xs"
  by (simp add: swap_def mset_swap)

lemma shuffle_from_props:
  "i < length xs \<Longrightarrow> mset (shuffle_from i gen xs) = mset xs"
proof (induction i arbitrary: xs)
  case 0
  then show ?case by simp
next
  case (Suc i)
  have "gen (Suc i) mod Suc (Suc i) < Suc (Suc i)" by simp
  with Suc.prems have j: "gen (Suc i) mod Suc (Suc i) < length xs" by linarith
  have "mset (shuffle_from i gen (swap (Suc i) (gen (Suc i) mod Suc (Suc i)) xs))
      = mset (swap (Suc i) (gen (Suc i) mod Suc (Suc i)) xs)"
    using Suc.prems by (intro Suc.IH) (simp add: length_swap)
  then show ?case using Suc.prems j by (simp add: mset_swap')
qed

lemma mset_shuffle: "mset (shuffle gen xs) = mset xs"
proof (cases xs)
  case Nil
  then show ?thesis by (simp add: shuffle_def)
next
  case (Cons x xs')
  then show ?thesis unfolding shuffle_def by (intro shuffle_from_props) simp
qed

lemma length_shuffle: "length (shuffle gen xs) = length xs"
  using mset_shuffle [of gen xs] by (metis size_mset)

lemma set_shuffle: "set (shuffle gen xs) = set xs"
  using mset_shuffle [of gen xs] by (metis set_mset_mset)

lemma count_list_shuffle: "count_list (shuffle gen xs) v = count_list xs v"
  using mset_shuffle [of gen xs] by (metis count_mset)

text \<open>
  The model of the shuffle loses no outcome: every arrangement of the deck is produced
  by some generator.
\<close>

lemma swap_append:
  assumes "i < length xs" "j < length xs"
  shows "swap i j (xs @ zs) = swap i j xs @ zs"
  using assms by (simp add: swap_def list_update_append1 nth_append)

lemma shuffle_from_append:
  "i < length xs \<Longrightarrow> shuffle_from i gen (xs @ zs) = shuffle_from i gen xs @ zs"
proof (induction i arbitrary: xs)
  case 0
  show ?case by simp
next
  case (Suc i)
  have "gen (Suc i) mod Suc (Suc i) < Suc (Suc i)" by simp
  with Suc.prems have j: "gen (Suc i) mod Suc (Suc i) < length xs" by linarith
  have "i < length (swap (Suc i) (gen (Suc i) mod Suc (Suc i)) xs)"
    using Suc.prems by (simp add: length_swap)
  from Suc.IH [OF this] show ?case
    by (simp add: swap_append [OF Suc.prems j])
qed

lemma shuffle_from_cong:
  "(\<And>k. 1 \<le> k \<Longrightarrow> k \<le> i \<Longrightarrow> gen k = gen' k)
     \<Longrightarrow> shuffle_from i gen xs = shuffle_from i gen' xs"
  by (induction i arbitrary: xs) simp_all

lemma shuffle_from_reaches:
  "length xs = Suc n \<Longrightarrow> mset ys = mset xs \<Longrightarrow> \<exists>gen. shuffle_from n gen xs = ys"
proof (induction n arbitrary: xs ys)
  case 0
  then obtain x where "xs = [x]" by (cases xs) auto
  with "0.prems"(2) have "ys = [x]" by simp
  with \<open>xs = [x]\<close> show ?case by simp
next
  case (Suc m)
  have "length ys = length xs" using Suc.prems(2) by (metis size_mset)
  then have "ys \<noteq> []" using Suc.prems(1) by auto
  then obtain ys' y where ys: "ys = ys' @ [y]" by (metis rev_exhaust)
  have "y \<in> set xs" using Suc.prems(2) ys by (metis in_set_conv_decomp set_mset_mset)
  then obtain j where j: "j < length xs" "xs ! j = y" by (auto simp add: in_set_conv_nth)
  define xs1 where "xs1 = swap (Suc m) j xs"
  have len1: "length xs1 = Suc (Suc m)" by (simp add: xs1_def length_swap Suc.prems(1))
  have last1: "xs1 ! Suc m = y"
    using j Suc.prems(1) by (auto simp add: xs1_def swap_def nth_list_update)
  have split: "xs1 = take (Suc m) xs1 @ [y]"
    using len1 last1 by (metis lessI take_Suc_conv_app_nth take_all order_refl)
  have "mset xs1 = mset xs"
    using j(1) Suc.prems(1) by (simp add: xs1_def mset_swap')
  then have "mset (take (Suc m) xs1 @ [y]) = mset (ys' @ [y])"
    using split Suc.prems(2) ys by simp
  then have m': "mset ys' = mset (take (Suc m) xs1)" by simp
  have "length (take (Suc m) xs1) = Suc m" using len1 by simp
  from Suc.IH [OF this m'] obtain gen' where g': "shuffle_from m gen' (take (Suc m) xs1) = ys'"
    by blast
  define gen where "gen = gen'(Suc m := j)"
  have "gen (Suc m) mod Suc (Suc m) = j"
    using j(1) Suc.prems(1) by (simp add: gen_def)
  then have "shuffle_from (Suc m) gen xs = shuffle_from m gen xs1"
    by (simp add: xs1_def)
  also have "\<dots> = shuffle_from m gen' xs1"
    by (rule shuffle_from_cong) (simp add: gen_def)
  also have "\<dots> = shuffle_from m gen' (take (Suc m) xs1 @ [y])"
    using split by simp
  also have "\<dots> = shuffle_from m gen' (take (Suc m) xs1) @ [y]"
    using len1 by (intro shuffle_from_append) simp
  also have "\<dots> = ys" by (simp add: g' ys)
  finally show ?case by blast
qed

lemma shuffle_reaches: "mset ys = mset xs \<Longrightarrow> \<exists>gen. shuffle gen xs = ys"
proof (cases xs)
  case Nil
  assume "mset ys = mset xs"
  with Nil show ?thesis by (simp add: shuffle_def)
next
  case (Cons x xs')
  assume "mset ys = mset xs"
  with Cons shuffle_from_reaches [of xs "length xs'" ys] show ?thesis
    by (simp add: shuffle_def)
qed

lemma Board_invalid_iff:
  "Board r c gen = Inl Invalid_configuration \<longleftrightarrow> sint r \<le> 0 \<or> sint c \<le> 0 \<or> odd (sint r * sint c)"
  by (simp add: Board_def Let_def int_mod_2 odd_sint_mult word_sle_eq del: even_mult_iff)

lemma Board_success:
  assumes "0 < sint r" "0 < sint c" "even (sint r * sint c)" "0 \<le> sint (r * c)"
  shows "Board r c gen =
    Inr \<lparr>rows = r, cols = c, cards = map Card (shuffle gen (twice (makeValues (int_div (r * c) 2))))\<rparr>"
proof -
  have "\<not> odd (sint (r * c))" using assms(3) by (simp only: odd_sint_mult) simp
  then show ?thesis
    using assms
    by (simp add: Board_def Let_def int_mod_2 word_sle_eq word_sless_alt
        deck_loop_twice length_makeValues del: even_mult_iff)
qed

lemma sint_pairs:
  fixes r c :: cint
  assumes "0 < sint r" "0 < sint c" "sint r * sint c < 2 ^ 31"
  shows "sint (r * c) = sint r * sint c"
    and "sint (int_div (r * c) 2) = sint r * sint c div 2"
proof -
  have "0 \<le> sint r * sint c" using assms(1,2) by simp
  then show p: "sint (r * c) = sint r * sint c"
    using assms(3) by (intro sint_mult_exact) simp_all
  show "sint (int_div (r * c) 2) = sint r * sint c div 2"
    using \<open>0 \<le> sint r * sint c\<close> by (simp add: sint_int_div_2_nonneg p)
qed

lemma Board_exact:
  assumes "0 < sint r" "0 < sint c" "even (sint r * sint c)" "sint r * sint c < 2 ^ 31"
  shows "Board r c gen =
    Inr \<lparr>rows = r, cols = c,
         cards = map Card (shuffle gen (twice (makeValues (int_div (r * c) 2))))\<rparr>"
proof -
  have "0 \<le> sint (r * c)"
    using assms(1,2) by (simp add: sint_pairs(1) [OF assms(1,2,4)])
  then show ?thesis using assms(1-3) by (rule Board_success [rotated 3])
qed

lemma getValue_Card: "map (getValue \<circ> Card) xs = xs"
  by (simp add: Card_def getValue_def comp_def)

lemma Board_values:
  assumes "0 < sint r" "0 < sint c" "even (sint r * sint c)" "sint r * sint c < 2 ^ 31"
  obtains b where "Board r c gen = Inr b" "rows b = r" "cols b = c"
    "map getValue (cards b) = shuffle gen (twice (makeValues (int_div (r * c) 2)))"
    "\<forall>cd \<in> set (cards b). \<not> revealed cd \<and> \<not> matched cd"
proof -
  let ?b = "\<lparr>rows = r, cols = c,
         cards = map Card (shuffle gen (twice (makeValues (int_div (r * c) 2))))\<rparr>"
  have "Board r c gen = Inr ?b" using assms by (rule Board_exact)
  moreover have "map getValue (cards ?b) = shuffle gen (twice (makeValues (int_div (r * c) 2)))"
    by (simp add: getValue_Card)
  moreover have "\<forall>cd \<in> set (cards ?b). \<not> revealed cd \<and> \<not> matched cd"
    by (auto simp add: Card_def)
  ultimately show thesis using that [of ?b] by simp
qed

subsection \<open>The constructor's error\<close>

text \<open>
  C3, as the code has it: the constructor throws its invalid-configuration error exactly
  when \<open>rows \<le> 0\<close>, \<open>cols \<le> 0\<close> or \<open>rows * cols\<close> is odd. On every other pair it returns a
  board exactly when the product, as the 32-bit \<open>int\<close> the code computes, is not negative;
  in particular whenever the product fits an \<open>int\<close>.
\<close>

theorem Board_error_iff:
  "(Board r c gen = Inl Invalid_configuration
      \<longleftrightarrow> sint r \<le> 0 \<or> sint c \<le> 0 \<or> odd (sint r * sint c))
   \<and> ((\<exists>b. Board r c gen = Inr b)
      \<longleftrightarrow> 0 < sint r \<and> 0 < sint c \<and> even (sint r * sint c) \<and> 0 \<le> sint (r * c))
   \<and> (0 < sint r \<and> 0 < sint c \<and> even (sint r * sint c) \<and> sint r * sint c < 2 ^ 31
      \<longrightarrow> (\<exists>b. Board r c gen = Inr b))"
proof -
  have 1: "Board r c gen = Inl Invalid_configuration
      \<longleftrightarrow> sint r \<le> 0 \<or> sint c \<le> 0 \<or> odd (sint r * sint c)"
    by (simp add: Board_def Let_def int_mod_2 odd_sint_mult word_sle_eq del: even_mult_iff)
  have 2: "(\<exists>b. Board r c gen = Inr b)
      \<longleftrightarrow> 0 < sint r \<and> 0 < sint c \<and> even (sint r * sint c) \<and> 0 \<le> sint (r * c)"
    by (auto simp add: Board_def Let_def int_mod_2 odd_sint_mult word_sle_eq word_sless_alt
        simp del: even_mult_iff)
  have 3: "\<exists>b. Board r c gen = Inr b"
    if "0 < sint r \<and> 0 < sint c \<and> even (sint r * sint c) \<and> sint r * sint c < 2 ^ 31"
    using that Board_exact [of r c gen] by simp
  from 1 2 3 show ?thesis by blast
qed

theorem Board_error_iff_witness:
  "Board 3 5 (\<lambda>i. i) = Inl Invalid_configuration
   \<and> Board 0 4 (\<lambda>i. i) = Inl Invalid_configuration
   \<and> (\<exists>b. Board 6 3 (\<lambda>i. i) = Inr b)
   \<and> (\<exists>b. Board 46340 46340 (\<lambda>i. i) = Inr b)"
  using Board_error_iff [of 3 5 "\<lambda>i. i"] Board_error_iff [of 0 4 "\<lambda>i. i"]
    Board_error_iff [of 6 3 "\<lambda>i. i"] Board_error_iff [of 46340 46340 "\<lambda>i. i"]
  by simp

theorem Board_overflow_counterexample:
  "0 < sint (2 :: cint) \<and> 0 < sint (1073741824 :: cint)
   \<and> even (sint (2 :: cint) * sint (1073741824 :: cint))
   \<and> Board 2 1073741824 (\<lambda>i. i) = Inl Length_error"
  by (simp add: Board_def Let_def int_mod_2 word_sle_eq word_sless_alt)

subsection \<open>Pairs on the board\<close>

lemma count_list_distinct: "distinct xs \<Longrightarrow> x \<in> set xs \<Longrightarrow> count_list xs x = 1"
  by (induction xs) auto

lemma Board_within_pool:
  assumes "0 < sint r" "0 < sint c" "even (sint r * sint c)" "sint r * sint c \<le> 140"
  obtains b where "Board r c gen = Inr b" "rows b = r" "cols b = c"
    "map getValue (cards b) = shuffle gen (twice (take (nat (sint r * sint c div 2)) pool))"
    "\<forall>cd \<in> set (cards b). \<not> revealed cd \<and> \<not> matched cd"
proof -
  have small: "sint r * sint c < 2 ^ 31" using assms(4) by simp
  have "sint (int_div (r * c) 2) \<le> 70"
    using assms(4) by (simp add: sint_pairs(2) [OF assms(1,2) small])
  then have "makeValues (int_div (r * c) 2) = take (nat (sint r * sint c div 2)) pool"
    by (simp add: makeValues_small sint_pairs(2) [OF assms(1,2) small])
  then show thesis
    using Board_values [OF assms(1,2,3) small, of gen] that by metis
qed

text \<open>
  C1: for positive \<open>rows\<close> and \<open>cols\<close> with an even product of at most 136, the
  constructor returns a board of \<open>rows * cols\<close> face-down cards whose values are a
  permutation of the paired deck (the first \<open>rows * cols / 2\<close> symbols of the pool, each
  twice): \<open>rows * cols / 2\<close> distinct values, each in exactly two cells.
\<close>

theorem Board_holds_pairs:
  assumes "0 < sint r" and "0 < sint c"
    and "even (sint r * sint c)" and "sint r * sint c \<le> 136"
  shows "\<exists>b. Board r c gen = Inr b \<and> rows b = r \<and> cols b = c
    \<and> int (length (cards b)) = sint r * sint c
    \<and> mset (map getValue (cards b)) = mset (twice (take (nat (sint r * sint c div 2)) pool))
    \<and> int (card (set (map getValue (cards b)))) = sint r * sint c div 2
    \<and> (\<forall>v \<in> set (map getValue (cards b)). count_list (map getValue (cards b)) v = 2)
    \<and> (\<forall>cd \<in> set (cards b). \<not> revealed cd \<and> \<not> matched cd)"
proof -
  define n where "n = nat (sint r * sint c div 2)"
  define vals where "vals = take n pool"
  have "sint r * sint c \<le> 140" using assms(4) by simp
  from Board_within_pool [OF assms(1,2,3) this, of gen]
  obtain b where b: "Board r c gen = Inr b" "rows b = r" "cols b = c"
    "map getValue (cards b) = shuffle gen (twice vals)"
    "\<forall>cd \<in> set (cards b). \<not> revealed cd \<and> \<not> matched cd"
    unfolding vals_def n_def by blast
  have n70: "n \<le> 70" using assms(4) by (simp add: n_def)
  have len: "length vals = n" using n70 by (simp add: vals_def length_pool)
  have dist: "distinct vals" by (simp add: vals_def distinct_pool)
  have pos: "0 < sint r * sint c" using assms(1,2) by simp
  have n2: "int (2 * n) = sint r * sint c"
    using assms(3) pos by (elim evenE) (simp add: n_def)
  have "length (cards b) = length (map getValue (cards b))" by simp
  also have "\<dots> = 2 * n" by (simp only: b(4) length_shuffle length_twice len)
  finally have l: "int (length (cards b)) = sint r * sint c" using n2 by simp
  have m: "mset (map getValue (cards b)) = mset (twice vals)"
    by (simp only: b(4) mset_shuffle)
  have s: "set (map getValue (cards b)) = set vals"
    by (simp only: b(4) set_shuffle set_twice)
  have "card (set vals) = n" using dist len by (simp add: distinct_card)
  then have k: "int (card (set (map getValue (cards b)))) = sint r * sint c div 2"
    using pos by (simp only: s) (simp add: n_def)
  have cnt: "count_list (map getValue (cards b)) v = 2" if "v \<in> set (map getValue (cards b))" for v
  proof -
    have "v \<in> set vals" using that by (simp only: s)
    then show ?thesis
      by (simp only: b(4) count_list_shuffle count_list_twice count_list_distinct [OF dist])
  qed
  show ?thesis
    using b(1,2,3,5) l m k cnt unfolding vals_def n_def by blast
qed

theorem Board_holds_pairs_witness:
  "0 < sint (4 :: cint) \<and> even (sint (4 :: cint) * sint (4 :: cint))
   \<and> sint (4 :: cint) * sint (4 :: cint) \<le> 136
   \<and> (\<exists>b. Board 4 4 (\<lambda>i. 7 * i + 3) = Inr b \<and> rows b = 4 \<and> cols b = 4
     \<and> length (cards b) = 16
     \<and> mset (map getValue (cards b)) = mset ''AABBCCDDEEFFGGHH''
     \<and> card (set (map getValue (cards b))) = 8
     \<and> (\<forall>v \<in> set (map getValue (cards b)). count_list (map getValue (cards b)) v = 2)
     \<and> (\<forall>cd \<in> set (cards b). \<not> revealed cd \<and> \<not> matched cd))"
proof -
  have "twice (take (nat (sint (4 :: cint) * sint (4 :: cint) div 2)) pool) = ''AABBCCDDEEFFGGHH''"
    by (simp add: pool_def twice_def)
  then show ?thesis
    using Board_holds_pairs [of 4 4 "\<lambda>i. 7 * i + 3"] by simp
qed

subsection \<open>The pool and its reuse\<close>

lemma distinct_makeValues_iff: "distinct (makeValues p) \<longleftrightarrow> sint p \<le> 70"
proof
  assume d: "distinct (makeValues p)"
  show "sint p \<le> 70"
  proof (rule ccontr)
    assume "\<not> sint p \<le> 70"
    then have lt: "0 < nat (sint p)" "70 < nat (sint p)" by simp_all
    have "makeValues p ! 0 = makeValues p ! 70"
      by (simp add: nth_makeValues [OF lt(1)] nth_makeValues [OF lt(2)] length_pool)
    moreover have "0 < length (makeValues p)" "70 < length (makeValues p)"
      using lt by (simp_all add: length_makeValues)
    ultimately show False
      using d by (simp add: distinct_conv_nth)
  qed
next
  assume "sint p \<le> 70"
  then show "distinct (makeValues p)"
    by (simp add: makeValues_small distinct_pool)
qed

lemma count_first_symbol:
  assumes "70 < sint p"
  shows "2 \<le> count_list (makeValues p) (CHR ''A'')"
proof -
  let ?rest = "map (\<lambda>k. pool ! (k mod length pool)) [0 ..< nat (sint p) - length pool]"
  have a: "pool ! 0 = CHR ''A''" by (simp add: pool_def)
  have "CHR ''A'' \<in> set pool" by (simp add: pool_def)
  then have 1: "1 \<le> count_list pool (CHR ''A'')"
    using count_list_0_iff [of pool "CHR ''A''"] by simp
  have "0 < nat (sint p) - length pool" using assms by (simp add: length_pool)
  then have "?rest ! 0 = CHR ''A''" and "0 < length ?rest"
    by (simp_all add: a)
  then have "CHR ''A'' \<in> set ?rest" by (metis nth_mem)
  then have 2: "1 \<le> count_list ?rest (CHR ''A'')"
    using count_list_0_iff [of ?rest "CHR ''A''"] by simp
  have "makeValues p = pool @ ?rest"
    using assms by (simp add: makeValues_eq length_pool)
  then show ?thesis using 1 2 by simp
qed

text \<open>
  C8, as the code has it: the pool is a fixed alphabet of 70 distinct symbols.
  \<open>makeValues\<close> returns \<open>pairCount\<close> values, the value at position \<open>i\<close> being the pool's
  symbol at \<open>i mod 70\<close>, so the values are distinct exactly up to 70 pairs; and a board
  of more than 140 cells holds the first symbol in at least four cells.
\<close>

theorem pool_is_cycled:
  "length pool = 70 \<and> distinct pool
   \<and> length (makeValues p) = nat (sint p)
   \<and> (\<forall>i < nat (sint p). makeValues p ! i = pool ! (i mod 70))
   \<and> (distinct (makeValues p) \<longleftrightarrow> sint p \<le> 70)
   \<and> (0 < sint r \<and> 0 < sint c \<and> even (sint r * sint c)
        \<and> 140 < sint r * sint c \<and> sint r * sint c < 2 ^ 31 \<longrightarrow>
       (\<exists>b. Board r c gen = Inr b
            \<and> 4 \<le> count_list (map getValue (cards b)) (CHR ''A'')))"
proof -
  have board: "\<exists>b. Board r c gen = Inr b
            \<and> 4 \<le> count_list (map getValue (cards b)) (CHR ''A'')"
    if h: "0 < sint r" "0 < sint c" "even (sint r * sint c)"
      "140 < sint r * sint c" "sint r * sint c < 2 ^ 31"
  proof -
    obtain b where b: "Board r c gen = Inr b"
      "map getValue (cards b) = shuffle gen (twice (makeValues (int_div (r * c) 2)))"
      using Board_values [OF h(1,2,3,5)] by blast
    have "70 < sint r * sint c div 2"
      using h(3,4) by (elim evenE) simp
    then have "70 < sint (int_div (r * c) 2)"
      by (simp only: sint_pairs(2) [OF h(1,2,5)])
    from count_first_symbol [OF this] show ?thesis
      using b by (simp add: count_list_shuffle count_list_twice)
  qed
  show ?thesis
    using board
    by (simp add: length_pool distinct_pool length_makeValues distinct_makeValues_iff
        nth_makeValues [unfolded length_pool])
qed

theorem pool_is_cycled_witness:
  "makeValues 72 ! 71 = pool ! 1
   \<and> \<not> distinct (makeValues 72)
   \<and> (\<exists>b. Board 2 71 (\<lambda>i. 3 * i) = Inr b
         \<and> 4 \<le> count_list (map getValue (cards b)) (CHR ''A''))"
  using pool_is_cycled [of 72 2 71 "\<lambda>i. 3 * i"]
  by simp

theorem pool_size_counterexample:
  "length pool \<noteq> 68 \<and> length (makeValues 69) = 69 \<and> distinct (makeValues 69)"
  by (simp add: length_pool length_makeValues distinct_makeValues_iff)

section \<open>The life of a card\<close>

lemma card_step_terminal: "matched cd \<Longrightarrow> revealed cd \<Longrightarrow> card_step cd x = cd"
  by (cases x) (simp_all add: reveal_def hide_def setMatched_def)

lemma card_run_terminal: "matched cd \<Longrightarrow> revealed cd \<Longrightarrow> card_run ops cd = cd"
  unfolding card_run_def by (induction ops) (simp_all add: card_step_terminal)

lemma card_step_invariant:
  "matched cd \<longrightarrow> revealed cd \<Longrightarrow> matched (card_step cd x) \<longrightarrow> revealed (card_step cd x)"
  by (cases x) (simp_all add: reveal_def hide_def setMatched_def)

lemma card_run_invariant:
  "matched cd \<longrightarrow> revealed cd \<Longrightarrow> matched (card_run ops cd) \<longrightarrow> revealed (card_run ops cd)"
  unfolding card_run_def
proof (induction ops arbitrary: cd)
  case Nil
  then show ?case by simp
next
  case (Cons x ops)
  from card_step_invariant [OF Cons.prems] show ?case
    by (simp add: Cons.IH)
qed

text \<open>
  C2: a matched card stays matched and face-up. \<open>setMatched\<close> sets both flags and is
  idempotent; on a matched card \<open>reveal\<close> and \<open>hide\<close> change nothing; and in the life of
  any card, from its construction on, a matched card is face-up and no further call
  changes it.
\<close>

theorem matched_is_terminal:
  "matched (setMatched cd) \<and> revealed (setMatched cd)
   \<and> setMatched (setMatched cd) = setMatched cd
   \<and> (matched cd \<longrightarrow> reveal cd = cd \<and> hide cd = cd \<and> matched (setMatched cd))
   \<and> (matched (card_run ops (Card v)) \<longrightarrow>
        revealed (card_run ops (Card v))
        \<and> card_run ops' (card_run ops (Card v)) = card_run ops (Card v))"
proof -
  have inv: "matched (card_run ops (Card v)) \<longrightarrow> revealed (card_run ops (Card v))"
    by (rule card_run_invariant) (simp add: Card_def)
  show ?thesis
    using inv by (auto simp add: setMatched_def reveal_def hide_def card_run_terminal)
qed

theorem matched_is_terminal_witness:
  "matched (card_run [Reveal, Hide, SetMatched] (Card (CHR ''A'')))
   \<and> revealed (card_run [Reveal, Hide, SetMatched] (Card (CHR ''A'')))
   \<and> card_run [Hide, Reveal, Hide, SetMatched, Hide]
        (card_run [Reveal, Hide, SetMatched] (Card (CHR ''A'')))
      = card_run [Reveal, Hide, SetMatched] (Card (CHR ''A''))
   \<and> matched (setMatched (Card (CHR ''A'')))
   \<and> reveal (setMatched (Card (CHR ''A''))) = setMatched (Card (CHR ''A''))
   \<and> hide (setMatched (Card (CHR ''A''))) = setMatched (Card (CHR ''A''))"
proof -
  have m: "matched (card_run [Reveal, Hide, SetMatched] (Card (CHR ''A'')))"
    by (simp add: card_run_def Card_def reveal_def hide_def setMatched_def)
  have s: "matched (setMatched (Card (CHR ''A'')))"
    by (simp add: setMatched_def)
  show ?thesis
    using m s
      matched_is_terminal [of "Card (CHR ''A'')" "[Reveal, Hide, SetMatched]" "CHR ''A''"
        "[Hide, Reveal, Hide, SetMatched, Hide]"]
      matched_is_terminal [of "setMatched (Card (CHR ''A''))" "[]" "CHR ''A''" "[]"]
    by simp
qed

section \<open>Cells of a well-formed board\<close>

lemma index_conversion:
  fixes x :: cint
  assumes "0 \<le> sint x"
  shows "unat (scast x :: 64 word) = nat (sint x)"
proof -
  have "sint x < 2 ^ 31" using sint_lt [of x] by simp
  then have "sint x < 2 ^ LENGTH(64)" by simp
  with assms have t: "take_bit LENGTH(64) (sint x) = sint x"
    by (rule take_bit_int_eq_self)
  have "unat (scast x :: 64 word) = nat (uint (word_of_int (sint x) :: 64 word))"
    by (simp only: unat_eq_nat_uint scast_eq)
  also have "\<dots> = nat (sint x)"
    by (simp only: uint_word_of_int_eq t)
  finally show ?thesis .
qed

lemma cell_bound:
  fixes r c R C :: int
  assumes "0 \<le> r" "r < R" "0 \<le> c" "c < C"
  shows "0 \<le> r * C + c" and "r * C + c < R * C"
proof -
  show "0 \<le> r * C + c" using assms by simp
  have "r + 1 \<le> R" using assms(2) by simp
  then have "(r + 1) * C \<le> R * C"
    using assms(3,4) by (intro mult_right_mono) simp_all
  then show "r * C + c < R * C" using assms(4) by (simp add: algebra_simps)
qed

lemma at_index_valid:
  assumes ok: "board_ok (board g)" and v: "valid g r c"
  shows "at_index (board g) r c = nat (sint r * sint (cols (board g)) + sint c)"
    and "at_index (board g) r c < length (cards (board g))"
proof -
  let ?R = "sint (rows (board g))" and ?C = "sint (cols (board g))"
  have r: "0 \<le> sint r" "sint r < ?R" and c: "0 \<le> sint c" "sint c < ?C"
    using v by (simp_all add: valid_def getRows_def getCols_def word_sle_eq word_sless_alt)
  have lo: "0 \<le> sint r * ?C + sint c" and hi: "sint r * ?C + sint c < ?R * ?C"
    using cell_bound [OF r c] by simp_all
  have big: "?R * ?C < 2 ^ 31" and len: "int (length (cards (board g))) = ?R * ?C"
    using ok by (simp_all add: board_ok_def)
  have "0 \<le> sint r * ?C" using r(1) c by simp
  moreover have "sint r * ?C < 2 ^ 31" using lo hi big c(1) by linarith
  ultimately have m: "sint (r * cols (board g)) = sint r * ?C"
    by (intro sint_mult_exact) simp_all
  have "sint (r * cols (board g) + c) = signed_take_bit 31 (sint r * ?C + sint c)"
    by (simp add: sint_word_add m)
  also have "\<dots> = sint r * ?C + sint c"
    using lo hi big by (intro signed_take_bit_int_eq_self) simp_all
  finally have s: "sint (r * cols (board g) + c) = sint r * ?C + sint c" .
  show 1: "at_index (board g) r c = nat (sint r * ?C + sint c)"
    using lo by (simp add: at_index_def index_conversion s)
  show "at_index (board g) r c < length (cards (board g))"
    using lo hi len by (simp add: 1)
qed

text \<open>The three mutators of a cell change one element of the vector and nothing else.\<close>

lemma shape_revealAt: "rows (revealAt b r c) = rows b" "cols (revealAt b r c) = cols b"
  "length (cards (revealAt b r c)) = length (cards b)"
  by (simp_all add: revealAt_def)

lemma shape_hideAt: "rows (hideAt b r c) = rows b" "cols (hideAt b r c) = cols b"
  "length (cards (hideAt b r c)) = length (cards b)"
  by (simp_all add: hideAt_def)

lemma shape_matchAt: "rows (matchAt b r c) = rows b" "cols (matchAt b r c) = cols b"
  "length (cards (matchAt b r c)) = length (cards b)"
  by (simp_all add: matchAt_def)

lemmas shape = shape_revealAt shape_hideAt shape_matchAt

lemma at_index_simps:
  "at_index (revealAt b r c) r' c' = at_index b r' c'"
  "at_index (hideAt b r c) r' c' = at_index b r' c'"
  "at_index (matchAt b r c) r' c' = at_index b r' c'"
  by (simp_all add: at_index_def shape)

lemma map_update_same:
  assumes "\<And>x. h (f x) = h x"
  shows "map h (xs[j := f (xs ! j)]) = map h xs"
proof (cases "j < length xs")
  case True
  then show ?thesis by (simp add: map_update assms list_update_same_conv)
next
  case False
  then show ?thesis by (simp add: list_update_beyond)
qed

lemma getValue_kept:
  "getValue (reveal cd) = getValue cd" "getValue (hide cd) = getValue cd"
  "getValue (setMatched cd) = getValue cd"
  by (simp_all add: getValue_def reveal_def hide_def setMatched_def)

lemma isMatched_kept:
  "isMatched (reveal cd) = isMatched cd" "isMatched (hide cd) = isMatched cd"
  by (simp_all add: isMatched_def reveal_def hide_def)

lemma matched_kept:
  "map isMatched (cards (revealAt b r c)) = map isMatched (cards b)"
  "map isMatched (cards (hideAt b r c)) = map isMatched (cards b)"
  by (simp_all add: revealAt_def hideAt_def at_def map_update_same isMatched_kept)

lemma at_matchAt:
  assumes "at_index b r' c' < length (cards b)"
  shows "at (matchAt b r c) r' c' =
    (if at_index b r' c' = at_index b r c then setMatched (at b r' c') else at b r' c')"
  using assms by (simp add: matchAt_def at_def at_index_def nth_list_update)

lemma at_hideAt:
  assumes "at_index b r' c' < length (cards b)"
  shows "at (hideAt b r c) r' c' =
    (if at_index b r' c' = at_index b r c then hide (at b r' c') else at b r' c')"
  using assms by (simp add: hideAt_def at_def at_index_def nth_list_update)

lemma at_revealAt:
  assumes "at_index b r' c' < length (cards b)"
  shows "at (revealAt b r c) r' c' =
    (if at_index b r' c' = at_index b r c then reveal (at b r' c') else at b r' c')"
  using assms by (simp add: revealAt_def at_def at_index_def nth_list_update)

lemma getValue_at:
  assumes "at_index b r' c' < length (cards b)"
  shows "getValue (at (revealAt b r c) r' c') = getValue (at b r' c')"
    and "getValue (at (hideAt b r c) r' c') = getValue (at b r' c')"
    and "getValue (at (matchAt b r c) r' c') = getValue (at b r' c')"
  using assms by (simp_all add: at_revealAt at_hideAt at_matchAt getValue_kept)

lemma isMatched_at:
  assumes "at_index b r' c' < length (cards b)"
  shows "isMatched (at (revealAt b r c) r' c') = isMatched (at b r' c')"
    and "isMatched (at (hideAt b r c) r' c') = isMatched (at b r' c')"
  using assms by (simp_all add: at_revealAt at_hideAt isMatched_kept)

lemma readPos_valid:
  "readPos g prompt w = Some ((r, c), w') \<Longrightarrow> valid g r c"
proof (induction g prompt w rule: readPos.induct)
  case (1 g prompt out)
  then show ?case by simp
next
  case (2 g prompt line rest out)
  show ?case
  proof (cases "parse_pos g line")
    case None
    with 2 show ?thesis by simp
  next
    case (Some p)
    with "2.prems" have "parse_pos g line = Some (r, c)" by simp
    then show ?thesis
      by (auto simp add: parse_pos_def split: option.splits if_splits)
  qed
qed

section \<open>One pass through the loop\<close>

subsection \<open>The branches of a pass\<close>

lemma turn_hangs_first:
  assumes "readPos g first_prompt (start_of_turn g w) = None"
  shows "turn g w = None"
  using assms by (simp only: turn_def Let_def start_of_turn_def option.case)

lemma turn_first_matched:
  assumes "readPos g first_prompt (start_of_turn g w) = Some ((r1, c1), w1)"
    and "isMatched (at (board g) r1 c1)"
  shows "turn g w = Some (First_already_matched (r1, c1), g,
           put [Say ''That card is already matched. Choose another.''] w1)"
  using assms
  by (simp only: turn_def Let_def start_of_turn_def option.case prod.case if_True)

lemma turn_hangs_second:
  assumes "readPos g first_prompt (start_of_turn g w) = Some ((r1, c1), w1)"
    and "\<not> isMatched (at (board g) r1 c1)"
    and "readPos (g\<lparr>board := revealAt (board g) r1 c1\<rparr>) second_prompt
           (display (revealAt (board g) r1 c1) w1) = None"
  shows "turn g w = None"
proof -
  have b: "board (g\<lparr>board := revealAt (board g) r1 c1\<rparr>) = revealAt (board g) r1 c1"
    by simp
  show ?thesis
    using assms
    by (simp only: turn_def Let_def start_of_turn_def option.case prod.case if_False b)
qed

lemma turn_same_card:
  assumes "readPos g first_prompt (start_of_turn g w) = Some ((r1, c1), w1)"
    and "\<not> isMatched (at (board g) r1 c1)"
    and "readPos (g\<lparr>board := revealAt (board g) r1 c1\<rparr>) second_prompt
           (display (revealAt (board g) r1 c1) w1) = Some ((r1, c1), w2)"
  shows "turn g w = Some (Same_card (r1, c1),
           g\<lparr>board := hideAt (revealAt (board g) r1 c1) r1 c1\<rparr>,
           put [Say ''You selected the same card twice. Try again.''] w2)"
proof -
  have b: "board (g\<lparr>board := revealAt (board g) r1 c1\<rparr>) = revealAt (board g) r1 c1"
    by simp
  have "turn g w = Some (Same_card (r1, c1),
           g\<lparr>board := revealAt (board g) r1 c1\<rparr>\<lparr>board := hideAt (revealAt (board g) r1 c1) r1 c1\<rparr>,
           put [Say ''You selected the same card twice. Try again.''] w2)"
    using assms
    by (simp only: turn_def Let_def start_of_turn_def option.case prod.case if_False if_True b
        HOL.simp_thms)
  then show ?thesis by simp
qed

lemma turn_second_matched:
  assumes "readPos g first_prompt (start_of_turn g w) = Some ((r1, c1), w1)"
    and "\<not> isMatched (at (board g) r1 c1)"
    and "readPos (g\<lparr>board := revealAt (board g) r1 c1\<rparr>) second_prompt
           (display (revealAt (board g) r1 c1) w1) = Some ((r2, c2), w2)"
    and "\<not> (r1 = r2 \<and> c1 = c2)"
    and "isMatched (at (revealAt (board g) r1 c1) r2 c2)"
  shows "turn g w = Some (Second_already_matched (r1, c1) (r2, c2),
           g\<lparr>board := hideAt (revealAt (board g) r1 c1) r1 c1\<rparr>,
           put [Say ''Second card already matched. Try again.''] w2)"
proof -
  have b: "board (g\<lparr>board := revealAt (board g) r1 c1\<rparr>) = revealAt (board g) r1 c1"
    by simp
  have "turn g w = Some (Second_already_matched (r1, c1) (r2, c2),
           g\<lparr>board := revealAt (board g) r1 c1\<rparr>\<lparr>board := hideAt (revealAt (board g) r1 c1) r1 c1\<rparr>,
           put [Say ''Second card already matched. Try again.''] w2)"
    using assms
    by (simp only: turn_def Let_def start_of_turn_def option.case prod.case if_False if_True b)
  then show ?thesis by simp
qed

lemma turn_match:
  assumes "readPos g first_prompt (start_of_turn g w) = Some ((r1, c1), w1)"
    and "\<not> isMatched (at (board g) r1 c1)"
    and "readPos (g\<lparr>board := revealAt (board g) r1 c1\<rparr>) second_prompt
           (display (revealAt (board g) r1 c1) w1) = Some ((r2, c2), w2)"
    and "\<not> (r1 = r2 \<and> c1 = c2)"
    and "\<not> isMatched (at (revealAt (board g) r1 c1) r2 c2)"
    and "getValue (at (revealAt (revealAt (board g) r1 c1) r2 c2) r1 c1)
       = getValue (at (revealAt (revealAt (board g) r1 c1) r2 c2) r2 c2)"
  shows "turn g w =
     Some (Match (r1, c1) (r2, c2),
       \<lparr>board = matchAt (matchAt (revealAt (revealAt (board g) r1 c1) r2 c2) r1 c1) r2 c2,
        moves = moves g + 1\<rparr>,
       put [Say ''MATCH! ('',
            Say [getValue (at (revealAt (revealAt (board g) r1 c1) r2 c2) r1 c1)], Say '')'']
         (display (revealAt (revealAt (board g) r1 c1) r2 c2) w2))"
proof -
  let ?b2 = "revealAt (revealAt (board g) r1 c1) r2 c2"
  have b: "board (g\<lparr>board := revealAt (board g) r1 c1\<rparr>) = revealAt (board g) r1 c1"
    "board (g\<lparr>board := revealAt (board g) r1 c1\<rparr>\<lparr>board := ?b2\<rparr>) = ?b2"
    "board (g\<lparr>board := revealAt (board g) r1 c1\<rparr>\<lparr>board := ?b2\<rparr>
       \<lparr>moves := moves (g\<lparr>board := revealAt (board g) r1 c1\<rparr>\<lparr>board := ?b2\<rparr>) + 1\<rparr>) = ?b2"
    by simp_all
  show ?thesis
    using assms
    apply (simp only: turn_def Let_def start_of_turn_def option.case prod.case if_False if_True b)
    apply simp
    done
qed

lemma turn_mismatch:
  assumes "readPos g first_prompt (start_of_turn g w) = Some ((r1, c1), w1)"
    and "\<not> isMatched (at (board g) r1 c1)"
    and "readPos (g\<lparr>board := revealAt (board g) r1 c1\<rparr>) second_prompt
           (display (revealAt (board g) r1 c1) w1) = Some ((r2, c2), w2)"
    and "\<not> (r1 = r2 \<and> c1 = c2)"
    and "\<not> isMatched (at (revealAt (board g) r1 c1) r2 c2)"
    and "getValue (at (revealAt (revealAt (board g) r1 c1) r2 c2) r1 c1)
       \<noteq> getValue (at (revealAt (revealAt (board g) r1 c1) r2 c2) r2 c2)"
  shows "turn g w =
     Some (Mismatch (r1, c1) (r2, c2),
       \<lparr>board = hideAt (hideAt (revealAt (revealAt (board g) r1 c1) r2 c2) r1 c1) r2 c2,
        moves = moves g + 1\<rparr>,
       snd (getline (put [Say ''Not a match.'',
              Say ''Press Enter to continue and hide the two cards...'']
         (display (revealAt (revealAt (board g) r1 c1) r2 c2) w2))))"
proof -
  let ?b2 = "revealAt (revealAt (board g) r1 c1) r2 c2"
  have b: "board (g\<lparr>board := revealAt (board g) r1 c1\<rparr>) = revealAt (board g) r1 c1"
    "board (g\<lparr>board := revealAt (board g) r1 c1\<rparr>\<lparr>board := ?b2\<rparr>) = ?b2"
    "board (g\<lparr>board := revealAt (board g) r1 c1\<rparr>\<lparr>board := ?b2\<rparr>
       \<lparr>moves := moves (g\<lparr>board := revealAt (board g) r1 c1\<rparr>\<lparr>board := ?b2\<rparr>) + 1\<rparr>) = ?b2"
    by simp_all
  show ?thesis
    using assms
    apply (simp only: turn_def Let_def start_of_turn_def option.case prod.case if_False if_True b)
    apply simp
    done
qed

lemma turn_cases:
  assumes "turn g w = Some (oc, g', w')"
  obtains
    (first_matched) r1 c1 w1 where
      "readPos g first_prompt (start_of_turn g w) = Some ((r1, c1), w1)"
      "isMatched (at (board g) r1 c1)"
      "oc = First_already_matched (r1, c1)"
      "g' = g"
      "w' = put [Say ''That card is already matched. Choose another.''] w1"
  | (same) r1 c1 w1 w2 where
      "readPos g first_prompt (start_of_turn g w) = Some ((r1, c1), w1)"
      "\<not> isMatched (at (board g) r1 c1)"
      "readPos (g\<lparr>board := revealAt (board g) r1 c1\<rparr>) second_prompt
         (display (revealAt (board g) r1 c1) w1) = Some ((r1, c1), w2)"
      "oc = Same_card (r1, c1)"
      "g' = g\<lparr>board := hideAt (revealAt (board g) r1 c1) r1 c1\<rparr>"
      "w' = put [Say ''You selected the same card twice. Try again.''] w2"
  | (second_matched) r1 c1 w1 r2 c2 w2 where
      "readPos g first_prompt (start_of_turn g w) = Some ((r1, c1), w1)"
      "\<not> isMatched (at (board g) r1 c1)"
      "readPos (g\<lparr>board := revealAt (board g) r1 c1\<rparr>) second_prompt
         (display (revealAt (board g) r1 c1) w1) = Some ((r2, c2), w2)"
      "(r1, c1) \<noteq> (r2, c2)"
      "isMatched (at (revealAt (board g) r1 c1) r2 c2)"
      "oc = Second_already_matched (r1, c1) (r2, c2)"
      "g' = g\<lparr>board := hideAt (revealAt (board g) r1 c1) r1 c1\<rparr>"
      "w' = put [Say ''Second card already matched. Try again.''] w2"
  | (match) r1 c1 w1 r2 c2 w2 b2 where
      "readPos g first_prompt (start_of_turn g w) = Some ((r1, c1), w1)"
      "\<not> isMatched (at (board g) r1 c1)"
      "readPos (g\<lparr>board := revealAt (board g) r1 c1\<rparr>) second_prompt
         (display (revealAt (board g) r1 c1) w1) = Some ((r2, c2), w2)"
      "(r1, c1) \<noteq> (r2, c2)"
      "\<not> isMatched (at (revealAt (board g) r1 c1) r2 c2)"
      "b2 = revealAt (revealAt (board g) r1 c1) r2 c2"
      "getValue (at b2 r1 c1) = getValue (at b2 r2 c2)"
      "oc = Match (r1, c1) (r2, c2)"
      "g' = \<lparr>board = matchAt (matchAt b2 r1 c1) r2 c2, moves = moves g + 1\<rparr>"
      "w' = put [Say ''MATCH! ('', Say [getValue (at b2 r1 c1)], Say '')''] (display b2 w2)"
  | (mismatch) r1 c1 w1 r2 c2 w2 b2 where
      "readPos g first_prompt (start_of_turn g w) = Some ((r1, c1), w1)"
      "\<not> isMatched (at (board g) r1 c1)"
      "readPos (g\<lparr>board := revealAt (board g) r1 c1\<rparr>) second_prompt
         (display (revealAt (board g) r1 c1) w1) = Some ((r2, c2), w2)"
      "(r1, c1) \<noteq> (r2, c2)"
      "\<not> isMatched (at (revealAt (board g) r1 c1) r2 c2)"
      "b2 = revealAt (revealAt (board g) r1 c1) r2 c2"
      "getValue (at b2 r1 c1) \<noteq> getValue (at b2 r2 c2)"
      "oc = Mismatch (r1, c1) (r2, c2)"
      "g' = \<lparr>board = hideAt (hideAt b2 r1 c1) r2 c2, moves = moves g + 1\<rparr>"
      "w' = snd (getline (put [Say ''Not a match.'',
               Say ''Press Enter to continue and hide the two cards...''] (display b2 w2)))"
proof (cases "readPos g first_prompt (start_of_turn g w)")
  case None
  from turn_hangs_first [OF this] assms show thesis by simp
next
  case (Some x)
  then obtain r1 c1 w1 where
    r1: "readPos g first_prompt (start_of_turn g w) = Some ((r1, c1), w1)"
    by (cases x) auto
  let ?g1 = "g\<lparr>board := revealAt (board g) r1 c1\<rparr>"
  let ?w1 = "display (revealAt (board g) r1 c1) w1"
  show thesis
  proof (cases "isMatched (at (board g) r1 c1)")
    case True
    from turn_first_matched [OF r1 True] assms first_matched [OF r1 True]
    show thesis by simp
  next
    case nm: False
    show thesis
    proof (cases "readPos ?g1 second_prompt ?w1")
      case None
      from turn_hangs_second [OF r1 nm this] assms show thesis by simp
    next
      case (Some y)
      then obtain r2 c2 w2 where
        r2: "readPos ?g1 second_prompt ?w1 = Some ((r2, c2), w2)"
        by (cases y) auto
      show thesis
      proof (cases "r1 = r2 \<and> c1 = c2")
        case True
        with r2 have r2': "readPos ?g1 second_prompt ?w1 = Some ((r1, c1), w2)" by simp
        from turn_same_card [OF r1 nm r2'] assms same [OF r1 nm r2']
        show thesis by simp
      next
        case ne: False
        then have ne': "(r1, c1) \<noteq> (r2, c2)" by simp
        show thesis
        proof (cases "isMatched (at (revealAt (board g) r1 c1) r2 c2)")
          case True
          from turn_second_matched [OF r1 nm r2 ne True] assms
            second_matched [OF r1 nm r2 ne' True]
          show thesis by simp
        next
          case nm2: False
          let ?b2 = "revealAt (revealAt (board g) r1 c1) r2 c2"
          show thesis
          proof (cases "getValue (at ?b2 r1 c1) = getValue (at ?b2 r2 c2)")
            case True
            from turn_match [OF r1 nm r2 ne nm2 True] assms
              match [OF r1 nm r2 ne' nm2 refl True]
            show thesis by simp
          next
            case False
            from turn_mismatch [OF r1 nm r2 ne nm2 False] assms
              mismatch [OF r1 nm r2 ne' nm2 refl False]
            show thesis by simp
          qed
        qed
      qed
    qed
  qed
qed

lemma board_ok_simps:
  "board_ok (revealAt b r c) = board_ok b"
  "board_ok (hideAt b r c) = board_ok b"
  "board_ok (matchAt b r c) = board_ok b"
  by (simp_all add: board_ok_def shape)

lemma valid_revealed: "valid (g\<lparr>board := revealAt (board g) r c\<rparr>) r' c' = valid g r' c'"
  by (simp add: valid_def getRows_def getCols_def shape)

text \<open>What a pass that reaches the comparison has established about its two cells.\<close>

lemma selections_in_range:
  assumes ok: "board_ok (board g)"
    and r1: "readPos g first_prompt w0 = Some ((r1, c1), w1)"
    and r2: "readPos (g\<lparr>board := revealAt (board g) r1 c1\<rparr>) second_prompt w1'
               = Some ((r2, c2), w2)"
  shows "valid g r1 c1" "valid g r2 c2"
    "at_index (board g) r1 c1 < length (cards (board g))"
    "at_index (board g) r2 c2 < length (cards (board g))"
proof -
  show v1: "valid g r1 c1" using readPos_valid [OF r1] .
  show v2: "valid g r2 c2" using readPos_valid [OF r2] by (simp add: valid_revealed)
  show "at_index (board g) r1 c1 < length (cards (board g))"
    using at_index_valid(2) [OF ok v1] .
  show "at_index (board g) r2 c2 < length (cards (board g))"
    using at_index_valid(2) [OF ok v2] .
qed

subsection \<open>The invariant of the loop\<close>

lemma settled_nth:
  "settled b \<longleftrightarrow> (\<forall>k < length (cards b). isRevealed (cards b ! k) = isMatched (cards b ! k))"
  by (simp add: settled_def all_set_conv_all_nth)

lemma at_index_cards: "at_index (b\<lparr>cards := xs\<rparr>) r c = at_index b r c"
  by (simp add: at_index_def)

lemma hide_reveal:
  assumes "\<not> isMatched cd" "isRevealed cd = isMatched cd"
  shows "hide (reveal cd) = cd"
  using assms by (simp add: hide_def reveal_def isMatched_def isRevealed_def)

lemma hideAt_revealAt:
  assumes "\<not> isMatched (at b r c)" "isRevealed (at b r c) = isMatched (at b r c)"
  shows "hideAt (revealAt b r c) r c = b"
proof (cases "at_index b r c < length (cards b)")
  case True
  then show ?thesis
    using hide_reveal [OF assms]
    by (simp add: hideAt_def revealAt_def at_def at_index_cards)
next
  case False
  then show ?thesis
    by (simp add: hideAt_def revealAt_def at_def at_index_cards list_update_beyond)
qed

lemma settled_at:
  assumes "settled b" "at_index b r c < length (cards b)"
  shows "isRevealed (at b r c) = isMatched (at b r c)"
  using assms by (simp add: settled_nth at_def)

lemma pass_restored:
  assumes "board_ok (board g)" and "settled (board g)"
    and "turn g w = Some (oc, g', w')"
    and "oc = Same_card p \<or> oc = Second_already_matched p q"
  shows "g' = g"
proof -
  have restored: "g\<lparr>board := hideAt (revealAt (board g) r1 c1) r1 c1\<rparr> = g"
    if "readPos g first_prompt w0 = Some ((r1, c1), w1)"
      and "\<not> isMatched (at (board g) r1 c1)" for r1 c1 w0 w1
  proof -
    have "at_index (board g) r1 c1 < length (cards (board g))"
      using at_index_valid(2) [OF assms(1) readPos_valid [OF that(1)]] .
    from settled_at [OF assms(2) this] that(2)
    show ?thesis by (simp add: hideAt_revealAt)
  qed
  show "g' = g"
    using assms(3)
  proof (cases rule: turn_cases)
    case (same r1 c1 w1 w2)
    then show ?thesis using restored by simp
  next
    case (second_matched r1 c1 w1 r2 c2 w2)
    then show ?thesis using restored by simp
  qed (use assms(4) in simp_all)
qed

text \<open>Both conditions hold after construction and after every pass.\<close>

lemma Game_invariant:
  assumes "0 < sint r" "0 < sint c" "even (sint r * sint c)" "sint r * sint c < 2 ^ 31"
  shows "\<exists>g. Game r c gen = Inr g \<and> board_ok (board g) \<and> settled (board g) \<and> moves g = 0"
proof -
  let ?p = "int_div (r * c) 2"
  let ?b = "\<lparr>rows = r, cols = c, cards = map Card (shuffle gen (twice (makeValues ?p)))\<rparr>"
  have b: "Board r c gen = Inr ?b" using assms by (rule Board_exact)
  have pos: "0 < sint r * sint c" using assms(1,2) by simp
  have "int (length (cards ?b)) = 2 * (sint r * sint c div 2)"
    using pos by (simp add: length_shuffle length_twice length_makeValues
        sint_pairs(2) [OF assms(1,2,4)])
  also have "\<dots> = sint r * sint c" using assms(3) by simp
  finally have "board_ok ?b" using assms by (simp add: board_ok_def)
  moreover have "settled ?b"
    by (auto simp add: settled_def Card_def isRevealed_def isMatched_def)
  ultimately show ?thesis by (simp add: Game_def b)
qed

lemma settled_after_match:
  assumes "settled b"
    and "at_index b r1 c1 < length (cards b)" "at_index b r2 c2 < length (cards b)"
  shows "settled (matchAt (matchAt (revealAt (revealAt b r1 c1) r2 c2) r1 c1) r2 c2)"
  using assms
  by (auto simp add: settled_nth matchAt_def revealAt_def at_def at_index_cards
      nth_list_update setMatched_def isRevealed_def isMatched_def)

lemma settled_after_mismatch:
  assumes "settled b"
    and "at_index b r1 c1 < length (cards b)" "at_index b r2 c2 < length (cards b)"
    and "\<not> isMatched (at b r1 c1)" "\<not> isMatched (at b r2 c2)"
  shows "settled (hideAt (hideAt (revealAt (revealAt b r1 c1) r2 c2) r1 c1) r2 c2)"
  using assms
  by (auto simp add: settled_nth hideAt_def revealAt_def at_def at_index_cards
      nth_list_update hide_def reveal_def isRevealed_def isMatched_def)

lemma turn_invariant:
  assumes ok: "board_ok (board g)" and st: "settled (board g)"
    and t: "turn g w = Some (oc, g', w')"
  shows "board_ok (board g') \<and> settled (board g')"
  using t
proof (cases rule: turn_cases)
  case (first_matched r1 c1 w1)
  then show ?thesis using ok st by simp
next
  case (same r1 c1 w1 w2)
  with pass_restored [OF ok st t, of "(r1, c1)"] show ?thesis
    using ok st by simp
next
  case (second_matched r1 c1 w1 r2 c2 w2)
  with pass_restored [OF ok st t, of "(r1, c1)" "(r2, c2)"] show ?thesis
    using ok st by simp
next
  case (match r1 c1 w1 r2 c2 w2 b2)
  note in_range = selections_in_range [OF ok match(1,3)]
  from settled_after_match [OF st in_range(3,4)]
  show ?thesis
    using ok match(6,9) by (simp add: board_ok_simps)
next
  case (mismatch r1 c1 w1 r2 c2 w2 b2)
  note in_range = selections_in_range [OF ok mismatch(1,3)]
  have "\<not> isMatched (at (board g) r2 c2)"
    using mismatch(5) in_range(4) by (simp add: isMatched_at)
  from settled_after_mismatch [OF st in_range(3,4) mismatch(2) this]
  show ?thesis
    using ok mismatch(6,9) by (simp add: board_ok_simps)
qed

subsection \<open>Rejected lines\<close>

lemma readPos_skips:
  assumes "\<forall>l \<in> set bad. parse_pos g l = None"
  shows "readPos g prompt (bad @ rest, out)
       = readPos g prompt (rest, out @ concat (map (\<lambda>l. [Say prompt, Say invalid_input]) bad))"
  using assms by (induction bad arbitrary: out) simp_all

lemma readPos_accepts:
  assumes "parse_pos g l = Some p"
  shows "readPos g prompt (l # rest, out) = Some (p, (rest, out @ [Say prompt]))"
  using assms by simp

lemma readPos_hangs:
  assumes "\<forall>l \<in> set bad. parse_pos g l = None"
  shows "readPos g prompt (bad, out) = None"
  using readPos_skips [OF assms, of prompt "[]" out] by simp

text \<open>The console a pass hands on never depends on what had been written before.\<close>

lemma readPos_output:
  "map_option (\<lambda>(p, w'). (p, fst w')) (readPos g prompt (ins, out))
     = map_option (\<lambda>(p, w'). (p, fst w')) (readPos g prompt (ins, out'))"
proof (induction ins arbitrary: out out')
  case Nil
  show ?case by simp
next
  case (Cons l ins)
  show ?case
  proof (cases "parse_pos g l")
    case None
    then show ?thesis using Cons.IH by simp
  next
    case (Some p)
    then show ?thesis by simp
  qed
qed

lemma parse_pos_revealed:
  "parse_pos (g\<lparr>board := revealAt (board g) r c\<rparr>) l = parse_pos g l"
  by (simp add: parse_pos_def valid_revealed split: option.splits)

lemma fst_start_of_turn: "fst (start_of_turn g w) = fst w"
  by (simp add: start_of_turn_def fst_put fst_display)

lemma turn_skips_rejected:
  assumes b1: "\<forall>l \<in> set bad1. parse_pos g l = None"
    and b2: "\<forall>l \<in> set bad2. parse_pos g l = None"
    and a: "parse_pos g l1 = Some (r1, c1)"
  shows "verdict (turn g (bad1 @ l1 # bad2 @ ins, out)) = verdict (turn g (l1 # ins, out))"
proof -
  let ?g1 = "g\<lparr>board := revealAt (board g) r1 c1\<rparr>"
  let ?b1 = "revealAt (board g) r1 c1"
  obtain o0 where s0: "start_of_turn g (l1 # ins, out) = (l1 # ins, o0)"
    using fst_start_of_turn [of g "(l1 # ins, out)"]
    by (cases "start_of_turn g (l1 # ins, out)") simp
  obtain o1 where s1: "start_of_turn g (bad1 @ l1 # bad2 @ ins, out) = (bad1 @ l1 # bad2 @ ins, o1)"
    using fst_start_of_turn [of g "(bad1 @ l1 # bad2 @ ins, out)"]
    by (cases "start_of_turn g (bad1 @ l1 # bad2 @ ins, out)") simp
  define w0 where "w0 = (ins, o0 @ [Say first_prompt])"
  define w1 where "w1 = (bad2 @ ins,
      (o1 @ concat (map (\<lambda>l. [Say first_prompt, Say invalid_input]) bad1)) @ [Say first_prompt])"
  have f0: "readPos g first_prompt (start_of_turn g (l1 # ins, out)) = Some ((r1, c1), w0)"
    unfolding s0 w0_def using a by (rule readPos_accepts)
  have f1: "readPos g first_prompt (start_of_turn g (bad1 @ l1 # bad2 @ ins, out))
      = Some ((r1, c1), w1)"
    unfolding s1 w1_def readPos_skips [OF b1] using a by (rule readPos_accepts)
  show ?thesis
  proof (cases "isMatched (at (board g) r1 c1)")
    case True
    show ?thesis
      by (simp add: verdict_def turn_first_matched [OF f0 True] turn_first_matched [OF f1 True])
  next
    case nm: False
    obtain p0 where d0: "display ?b1 w0 = (ins, p0)"
      using fst_display [of ?b1 w0] by (cases "display ?b1 w0") (simp add: w0_def)
    obtain p1 where d1: "display ?b1 w1 = (bad2 @ ins, p1)"
      using fst_display [of ?b1 w1] by (cases "display ?b1 w1") (simp add: w1_def)
    have b2': "\<forall>l \<in> set bad2. parse_pos ?g1 l = None"
      using b2 by (simp add: parse_pos_revealed)
    let ?X0 = "readPos ?g1 second_prompt (display ?b1 w0)"
    let ?X1 = "readPos ?g1 second_prompt (display ?b1 w1)"
    have same_result: "map_option (\<lambda>(p, w'). (p, fst w')) ?X1
        = map_option (\<lambda>(p, w'). (p, fst w')) ?X0"
      unfolding d0 d1 readPos_skips [OF b2'] by (rule readPos_output)
    show ?thesis
    proof (cases ?X0)
      case None
      then have "?X1 = None" using same_result by simp
      then show ?thesis
        by (simp add: verdict_def turn_hangs_second [OF f0 nm None]
            turn_hangs_second [OF f1 nm])
    next
      case (Some y)
      then obtain r2 c2 w2 where x0: "?X0 = Some ((r2, c2), w2)"
        by (cases y) auto
      then obtain w2' where x1: "?X1 = Some ((r2, c2), w2')" and in2: "fst w2' = fst w2"
        using same_result by (cases ?X1) auto
      show ?thesis
      proof (cases "r1 = r2 \<and> c1 = c2")
        case True
        then have y0: "?X0 = Some ((r1, c1), w2)" and y1: "?X1 = Some ((r1, c1), w2')"
          using x0 x1 by simp_all
        show ?thesis
          by (simp add: verdict_def turn_same_card [OF f0 nm y0] turn_same_card [OF f1 nm y1])
      next
        case ne: False
        show ?thesis
        proof (cases "isMatched (at ?b1 r2 c2)")
          case True
          show ?thesis
            by (simp add: verdict_def turn_second_matched [OF f0 nm x0 ne True]
                turn_second_matched [OF f1 nm x1 ne True])
        next
          case nm2: False
          show ?thesis
          proof (cases "getValue (at (revealAt ?b1 r2 c2) r1 c1)
                      = getValue (at (revealAt ?b1 r2 c2) r2 c2)")
            case True
            show ?thesis
              by (simp add: verdict_def turn_match [OF f0 nm x0 ne nm2 True]
                  turn_match [OF f1 nm x1 ne nm2 True])
          next
            case False
            show ?thesis
              by (simp add: verdict_def turn_mismatch [OF f0 nm x0 ne nm2 False]
                  turn_mismatch [OF f1 nm x1 ne nm2 False])
          qed
        qed
      qed
    qed
  qed
qed

lemma sint_pred:
  fixes r :: cint
  shows "sint (r - 1) = (if sint r = - (2 ^ 31) then 2 ^ 31 - 1 else sint r - 1)"
proof (cases "sint r = - (2 ^ 31)")
  case True
  then show ?thesis
    by (simp add: sint_word_diff signed_take_bit_eq_take_bit_shift take_bit_eq_mod)
next
  case False
  then have "- (2 ^ 31) \<le> sint r - 1" "sint r - 1 < 2 ^ 31"
    using sint_ge [of r] sint_lt [of r] by simp_all
  then have "signed_take_bit 31 (sint r - 1) = sint r - 1"
    by (intro signed_take_bit_int_eq_self) simp_all
  with False show ?thesis by (simp add: sint_word_diff)
qed

lemma in_range_pred:
  fixes r R :: cint
  shows "0 \<le>s r - 1 \<and> r - 1 <s R \<longleftrightarrow> 1 \<le> sint r \<and> sint r \<le> sint R"
  using sint_lt [of R] by (auto simp add: word_sle_eq word_sless_alt sint_pred)

lemma valid_pred:
  "valid g (r - 1) (c - 1) \<longleftrightarrow>
     1 \<le> sint r \<and> sint r \<le> sint (rows (board g)) \<and> 1 \<le> sint c \<and> sint c \<le> sint (cols (board g))"
  using in_range_pred [of r "rows (board g)"] in_range_pred [of c "cols (board g)"]
  by (auto simp add: valid_def getRows_def getCols_def)

lemma parse_pos_None_iff:
  "parse_pos g l = None \<longleftrightarrow>
     (case extract2 l of
        None \<Rightarrow> True
      | Some (r, c) \<Rightarrow> \<not> (1 \<le> sint r \<and> sint r \<le> sint (rows (board g))
                        \<and> 1 \<le> sint c \<and> sint c \<le> sint (cols (board g))))"
  by (simp add: parse_pos_def valid_pred split: option.splits)

subsection \<open>The example game\<close>

lemma example_ok: "board_ok (board example_game)"
  by (simp add: example_game_def board_ok_def)

lemma example_settled: "settled (board example_game)"
  by (simp add: example_game_def settled_def Card_def isRevealed_def isMatched_def)

lemma example_match:
  "map_option fst (turn example_game ([''1 1'', ''2 2''], [])) = Some (Match (0, 0) (1, 1))"
  by code_simp

lemma example_mismatch:
  "map_option fst (turn example_game ([''1 1'', ''1 2'', ''''], []))
     = Some (Mismatch (0, 0) (0, 1))"
  by code_simp

lemma example_same:
  "map_option fst (turn example_game ([''2 1'', ''2 1''], [])) = Some (Same_card (1, 0))"
  by code_simp

lemma example_rejected:
  "\<forall>l \<in> set [''0 1'', ''two 2'', ''3 1'', ''''].
     parse_pos example_game l = None"
  by code_simp

lemma example_accepted: "parse_pos example_game ''1 1'' \<noteq> None"
  by code_simp

section \<open>The turn\<close>

text \<open>
  C4: in a pass that reaches the comparison, equal values leave both cells matched (and
  face up). Different values leave both cells face down and no cell's matched flag
  changed, and the pass waits for the acknowledgement first: with w1 and w2 the consoles
  returned by the first and the second readPos of the pass, the board shown last is the
  board of the pass with both selected cards turned face up, where both cells show their
  values; the final console is the one obtained from w2 by showing that board, printing
  the two messages and reading a line, so that the line following the second selection
  is removed from the input (at the end of the input there is none to remove); and only
  then are the two cards of that board hidden.
\<close>

theorem comparison_step:
  assumes "board_ok (board g)" and "turn g w = Some (oc, g', w')"
  shows "(oc = Match (r1, c1) (r2, c2) \<longrightarrow>
            getValue (at (board g) r1 c1) = getValue (at (board g) r2 c2)
          \<and> isMatched (at (board g') r1 c1) \<and> isMatched (at (board g') r2 c2)
          \<and> isRevealed (at (board g') r1 c1) \<and> isRevealed (at (board g') r2 c2))
       \<and> (oc = Mismatch (r1, c1) (r2, c2) \<longrightarrow>
            getValue (at (board g) r1 c1) \<noteq> getValue (at (board g) r2 c2)
          \<and> \<not> isRevealed (at (board g') r1 c1) \<and> \<not> isRevealed (at (board g') r2 c2)
          \<and> map isMatched (cards (board g')) = map isMatched (cards (board g))
          \<and> (\<exists>w1 w2.
                readPos g first_prompt (start_of_turn g w) = Some ((r1, c1), w1)
              \<and> readPos (g\<lparr>board := revealAt (board g) r1 c1\<rparr>) second_prompt
                    (display (revealAt (board g) r1 c1) w1) = Some ((r2, c2), w2)
              \<and> isRevealed (at (revealAt (revealAt (board g) r1 c1) r2 c2) r1 c1)
              \<and> isRevealed (at (revealAt (revealAt (board g) r1 c1) r2 c2) r2 c2)
              \<and> shown (at (revealAt (revealAt (board g) r1 c1) r2 c2) r1 c1)
                    = getValue (at (board g) r1 c1)
              \<and> shown (at (revealAt (revealAt (board g) r1 c1) r2 c2) r2 c2)
                    = getValue (at (board g) r2 c2)
              \<and> w' = snd (getline (put [Say ''Not a match.'',
                       Say ''Press Enter to continue and hide the two cards...'']
                       (display (revealAt (revealAt (board g) r1 c1) r2 c2) w2)))
              \<and> fst w' = tl (fst w2)
              \<and> snd w' = snd (display (revealAt (revealAt (board g) r1 c1) r2 c2) w2)
                    @ [Say ''Not a match.'',
                       Say ''Press Enter to continue and hide the two cards...'']
              \<and> board g' = hideAt (hideAt (revealAt (revealAt (board g) r1 c1) r2 c2)
                                 r1 c1) r2 c2))"
  using assms(2)
proof (cases rule: turn_cases)
  case (match p1 q1 w1 p2 q2 w2 b2)
  note in_range = selections_in_range [OF assms(1) match(1,3)]
  let ?i = "at_index (board g) p1 q1" and ?j = "at_index (board g) p2 q2"
  have len: "length (cards b2) = length (cards (board g))"
    by (simp add: match(6) shape)
  have ix: "at_index b2 r c = at_index (board g) r c" for r c
    by (simp add: match(6) at_index_simps)
  have v: "getValue (at b2 p1 q1) = getValue (at (board g) p1 q1)"
    "getValue (at b2 p2 q2) = getValue (at (board g) p2 q2)"
    using in_range(3,4)
    by (simp_all add: match(6) getValue_at at_index_simps shape)
  have m1: "isMatched (at (board g') p1 q1) \<and> isRevealed (at (board g') p1 q1)"
    using in_range(3) len ix
    by (simp add: match(9) at_matchAt at_index_simps shape
        isMatched_def isRevealed_def setMatched_def)
  have m2: "isMatched (at (board g') p2 q2) \<and> isRevealed (at (board g') p2 q2)"
    using in_range(4) len ix
    by (simp add: match(9) at_matchAt at_index_simps shape
        isMatched_def isRevealed_def setMatched_def)
  show ?thesis
    using match(7,8) v m1 m2 by auto
next
  case (mismatch p1 q1 w1 p2 q2 w2 b2)
  note in_range = selections_in_range [OF assms(1) mismatch(1,3)]
  have len: "length (cards b2) = length (cards (board g))"
    by (simp add: mismatch(6) shape)
  have ix: "at_index b2 r c = at_index (board g) r c" for r c
    by (simp add: mismatch(6) at_index_simps)
  have v: "getValue (at b2 p1 q1) = getValue (at (board g) p1 q1)"
    "getValue (at b2 p2 q2) = getValue (at (board g) p2 q2)"
    using in_range(3,4)
    by (simp_all add: mismatch(6) getValue_at at_index_simps shape)
  have n1: "\<not> isMatched (at b2 p1 q1)"
    using mismatch(2) in_range(3)
    by (simp add: mismatch(6) isMatched_at at_index_simps shape)
  have n2: "\<not> isMatched (at b2 p2 q2)"
    using mismatch(5) in_range(4)
    by (simp add: mismatch(6) isMatched_at at_index_simps shape)
  have r: "isRevealed (at b2 p1 q1)" "isRevealed (at b2 p2 q2)"
    using mismatch(2,5) in_range(3,4)
    by (auto simp add: mismatch(6) at_revealAt at_index_simps shape
        isRevealed_def isMatched_def reveal_def)
  have h1: "\<not> isRevealed (at (board g') p1 q1)"
    using n1 n2 in_range(3) len ix
    by (simp add: mismatch(9) at_hideAt at_index_simps shape
        isRevealed_def isMatched_def hide_def)
  have h2: "\<not> isRevealed (at (board g') p2 q2)"
    using n1 n2 in_range(4) len ix
    by (simp add: mismatch(9) at_hideAt at_index_simps shape
        isRevealed_def isMatched_def hide_def)
  have k: "map isMatched (cards (board g')) = map isMatched (cards (board g))"
    by (simp add: mismatch(9,6) matched_kept)
  have sh: "shown (at b2 p1 q1) = getValue (at (board g) p1 q1)"
    "shown (at b2 p2 q2) = getValue (at (board g) p2 q2)"
    using r v by (simp_all add: shown_def)
  let ?msgs = "[Say ''Not a match.'', Say ''Press Enter to continue and hide the two cards...'']"
  have i: "fst w' = tl (fst w2)"
    by (simp add: mismatch(10) getline_def put_def fst_display split: list.splits)
  have o: "snd w' = snd (display b2 w2) @ ?msgs"
    by (simp add: mismatch(10) getline_def put_def split: list.splits)
  have bd: "board g' = hideAt (hideAt b2 p1 q1) p2 q2"
    by (simp add: mismatch(9))
  have ack: "\<exists>u1 u2.
        readPos g first_prompt (start_of_turn g w) = Some ((p1, q1), u1)
      \<and> readPos (g\<lparr>board := revealAt (board g) p1 q1\<rparr>) second_prompt
            (display (revealAt (board g) p1 q1) u1) = Some ((p2, q2), u2)
      \<and> isRevealed (at (revealAt (revealAt (board g) p1 q1) p2 q2) p1 q1)
      \<and> isRevealed (at (revealAt (revealAt (board g) p1 q1) p2 q2) p2 q2)
      \<and> shown (at (revealAt (revealAt (board g) p1 q1) p2 q2) p1 q1)
            = getValue (at (board g) p1 q1)
      \<and> shown (at (revealAt (revealAt (board g) p1 q1) p2 q2) p2 q2)
            = getValue (at (board g) p2 q2)
      \<and> w' = snd (getline (put ?msgs
               (display (revealAt (revealAt (board g) p1 q1) p2 q2) u2)))
      \<and> fst w' = tl (fst u2)
      \<and> snd w' = snd (display (revealAt (revealAt (board g) p1 q1) p2 q2) u2) @ ?msgs
      \<and> board g' = hideAt (hideAt (revealAt (revealAt (board g) p1 q1) p2 q2) p1 q1) p2 q2"
    using mismatch(1,3,10) r sh i o bd unfolding mismatch(6) by blast
  have pq: "p1 = r1 \<and> q1 = c1 \<and> p2 = r2 \<and> q2 = c2" if "oc = Mismatch (r1, c1) (r2, c2)"
    using that mismatch(8) by simp
  have nomatch: "oc \<noteq> Match (r1, c1) (r2, c2)" using mismatch(8) by simp
  show ?thesis
  proof (cases "oc = Mismatch (r1, c1) (r2, c2)")
    case True
    from pq [OF True] have e: "p1 = r1" "q1 = c1" "p2 = r2" "q2 = c2" by simp_all
    have d: "getValue (at (board g) r1 c1) \<noteq> getValue (at (board g) r2 c2)"
      using mismatch(7) v unfolding e by simp
    obtain u1 u2 where u:
      "readPos g first_prompt (start_of_turn g w) = Some ((r1, c1), u1)"
      "readPos (g\<lparr>board := revealAt (board g) r1 c1\<rparr>) second_prompt
         (display (revealAt (board g) r1 c1) u1) = Some ((r2, c2), u2)"
      "isRevealed (at (revealAt (revealAt (board g) r1 c1) r2 c2) r1 c1)"
      "isRevealed (at (revealAt (revealAt (board g) r1 c1) r2 c2) r2 c2)"
      "shown (at (revealAt (revealAt (board g) r1 c1) r2 c2) r1 c1)
         = getValue (at (board g) r1 c1)"
      "shown (at (revealAt (revealAt (board g) r1 c1) r2 c2) r2 c2)
         = getValue (at (board g) r2 c2)"
      "w' = snd (getline (put ?msgs
               (display (revealAt (revealAt (board g) r1 c1) r2 c2) u2)))"
      "fst w' = tl (fst u2)"
      "snd w' = snd (display (revealAt (revealAt (board g) r1 c1) r2 c2) u2) @ ?msgs"
      "board g' = hideAt (hideAt (revealAt (revealAt (board g) r1 c1) r2 c2) r1 c1) r2 c2"
      using ack unfolding e by blast
    show ?thesis
      apply (rule conjI)
       apply (rule impI)
       apply (simp add: nomatch)
      apply (rule impI)
      apply (intro conjI)
          apply (rule d)
         apply (rule h1 [unfolded e])
        apply (rule h2 [unfolded e])
       apply (rule k)
      apply (rule exI [of _ u1])
      apply (rule exI [of _ u2])
      apply (intro conjI)
               apply (rule u(1))
              apply (rule u(2))
             apply (rule u(3))
            apply (rule u(4))
           apply (rule u(5))
          apply (rule u(6))
         apply (rule u(7))
        apply (rule u(8))
       apply (rule u(9))
      apply (rule u(10))
      done
  next
    case False
    with nomatch show ?thesis by simp
  qed
qed simp_all

theorem comparison_step_witness:
  "board_ok (board example_game)
   \<and> (\<exists>g' w'. turn example_game ([''1 1'', ''2 2''], []) = Some (Match (0, 0) (1, 1), g', w')
        \<and> getValue (at (board example_game) 0 0) = getValue (at (board example_game) 1 1)
        \<and> isMatched (at (board g') 0 0) \<and> isMatched (at (board g') 1 1))
   \<and> (\<exists>g' w'. turn example_game ([''1 1'', ''1 2'', ''''], [])
          = Some (Mismatch (0, 0) (0, 1), g', w')
        \<and> \<not> isRevealed (at (board g') 0 0) \<and> \<not> isRevealed (at (board g') 0 1)
        \<and> map isMatched (cards (board g')) = map isMatched (cards (board example_game)))"
proof -
  obtain g1 w1 where
    t1: "turn example_game ([''1 1'', ''2 2''], []) = Some (Match (0, 0) (1, 1), g1, w1)"
    using example_match by (cases "turn example_game ([''1 1'', ''2 2''], [])") auto
  obtain g2 w2 where
    t2: "turn example_game ([''1 1'', ''1 2'', ''''], []) = Some (Mismatch (0, 0) (0, 1), g2, w2)"
    using example_mismatch by (cases "turn example_game ([''1 1'', ''1 2'', ''''], [])") auto
  show ?thesis
    using example_ok t1 t2
      comparison_step [OF example_ok t1, of 0 0 1 1]
      comparison_step [OF example_ok t2, of 0 0 0 1]
    by simp
qed

text \<open>
  C5: the counter is 0 after construction; a pass that reaches the comparison adds
  exactly 1 to it (in 32-bit arithmetic), whether the cards match or not; a pass that ends
  at an already matched first card, at the same cell selected twice or at an already
  matched second card leaves it unchanged; lines that \<open>readPos\<close> rejects, before either
  selection, do not change the outcome of the pass or the counter; and a pass in which
  every line is rejected never ends.
\<close>

theorem moves_counted:
  "(Game r c gen = Inr g0 \<longrightarrow> moves g0 = 0)
   \<and> (turn g w = Some (oc, g', w') \<longrightarrow>
        moves g' = (case oc of
                      Match p q \<Rightarrow> moves g + 1
                    | Mismatch p q \<Rightarrow> moves g + 1
                    | First_already_matched p \<Rightarrow> moves g
                    | Same_card p \<Rightarrow> moves g
                    | Second_already_matched p q \<Rightarrow> moves g))
   \<and> ((\<forall>l \<in> set bad1 \<union> set bad2. parse_pos g l = None) \<and> parse_pos g l1 \<noteq> None \<longrightarrow>
        map_option (\<lambda>(oc, g'). (oc, moves g')) (verdict (turn g (bad1 @ l1 # bad2 @ ins, out)))
      = map_option (\<lambda>(oc, g'). (oc, moves g')) (verdict (turn g (l1 # ins, out))))
   \<and> ((\<forall>l \<in> set bad1. parse_pos g l = None) \<longrightarrow> turn g (bad1, out) = None)"
proof -
  have 1: "moves g0 = 0" if "Game r c gen = Inr g0"
    using that by (auto simp add: Game_def split: sum.splits)
  have 2: "moves g' = (case oc of
                      Match p q \<Rightarrow> moves g + 1
                    | Mismatch p q \<Rightarrow> moves g + 1
                    | First_already_matched p \<Rightarrow> moves g
                    | Same_card p \<Rightarrow> moves g
                    | Second_already_matched p q \<Rightarrow> moves g)"
    if "turn g w = Some (oc, g', w')"
    using that by (cases rule: turn_cases) simp_all
  have 3: "verdict (turn g (bad1 @ l1 # bad2 @ ins, out)) = verdict (turn g (l1 # ins, out))"
    if h: "\<forall>l \<in> set bad1 \<union> set bad2. parse_pos g l = None" "parse_pos g l1 \<noteq> None"
  proof -
    obtain r1 c1 where "parse_pos g l1 = Some (r1, c1)"
      using h(2) by (cases "parse_pos g l1") auto
    with h(1) show ?thesis by (intro turn_skips_rejected) auto
  qed
  have 4: "turn g (bad1, out) = None" if h: "\<forall>l \<in> set bad1. parse_pos g l = None"
  proof -
    have "fst (start_of_turn g (bad1, out)) = bad1" by (simp add: fst_start_of_turn)
    then obtain o' where "start_of_turn g (bad1, out) = (bad1, o')"
      by (cases "start_of_turn g (bad1, out)") simp
    with readPos_hangs [OF h] show ?thesis by (intro turn_hangs_first) simp
  qed
  from 1 2 3 4 show ?thesis by metis
qed

theorem moves_counted_witness:
  "(\<exists>g0. Game 2 2 (\<lambda>i. i) = Inr g0 \<and> moves g0 = 0)
   \<and> (\<exists>g' w'. turn example_game ([''1 1'', ''2 2''], []) = Some (Match (0, 0) (1, 1), g', w')
        \<and> moves g' = 1)
   \<and> (\<exists>g' w'. turn example_game ([''2 1'', ''2 1''], []) = Some (Same_card (1, 0), g', w')
        \<and> moves g' = 0)
   \<and> map_option (\<lambda>(oc, g'). (oc, moves g'))
        (verdict (turn example_game
           ([''0 1'', ''two 2'', ''3 1'', ''''] @ ''1 1'' # [''0 1'', ''two 2'', ''3 1'', ''''] @ [''2 2''], [])))
      = Some (Match (0, 0) (1, 1), 1)
   \<and> turn example_game ([''0 1'', ''two 2'', ''3 1'', ''''], []) = None"
proof -
  obtain g0 where g0: "Game 2 2 (\<lambda>i. i) = Inr g0"
    using Game_invariant [of 2 2 "\<lambda>i. i"] by auto
  obtain g1 w1 where
    t1: "turn example_game ([''1 1'', ''2 2''], []) = Some (Match (0, 0) (1, 1), g1, w1)"
    using example_match by (cases "turn example_game ([''1 1'', ''2 2''], [])") auto
  obtain g2 w2 where
    t2: "turn example_game ([''2 1'', ''2 1''], []) = Some (Same_card (1, 0), g2, w2)"
    using example_same by (cases "turn example_game ([''2 1'', ''2 1''], [])") auto
  have m0: "moves example_game = 0" by (simp add: example_game_def)
  show ?thesis
    using g0 t1 t2 m0 example_rejected example_accepted
      moves_counted [of 2 2 "\<lambda>i. i" g0 example_game "([''1 1'', ''2 2''], [])"
        "Match (0, 0) (1, 1)" g1 w1 "[''0 1'', ''two 2'', ''3 1'', '''']"
        "[''0 1'', ''two 2'', ''3 1'', '''']" "''1 1''" "[''2 2'']" "[]"]
      moves_counted [of 2 2 "\<lambda>i. i" g0 example_game "([''2 1'', ''2 1''], [])"
        "Same_card (1, 0)" g2 w2 "[]" "[]" "''1 1''" "[]" "[]"]
    by (auto simp add: verdict_def)
qed

text \<open>
  C6: when the second selection is the first cell again, or a cell already matched, the
  pass ends with the game exactly as it was when the pass began, so every card that is
  not matched lies face down and the counter of moves is unchanged. A pass begins with
  every unmatched card face down (\<open>settled\<close>), on a board whose vector has \<open>rows * cols\<close>
  cells (\<open>board_ok\<close>).
\<close>

theorem abandoned_pass_restores:
  assumes "board_ok (board g)" and "settled (board g)"
    and "turn g w = Some (oc, g', w')"
    and "oc = Same_card p \<or> oc = Second_already_matched p q"
  shows "g' = g
    \<and> (\<forall>cd \<in> set (cards (board g')). \<not> isMatched cd \<longrightarrow> \<not> isRevealed cd)
    \<and> map isMatched (cards (board g')) = map isMatched (cards (board g))
    \<and> moves g' = moves g"
proof -
  have "g' = g" using assms by (rule pass_restored)
  then show ?thesis
    using assms(2) by (auto simp add: settled_def)
qed

theorem abandoned_pass_restores_witness:
  "board_ok (board example_game) \<and> settled (board example_game)
   \<and> (\<exists>w'. turn example_game ([''2 1'', ''2 1''], [])
              = Some (Same_card (1, 0), example_game, w'))"
proof -
  obtain g2 w2 where
    t2: "turn example_game ([''2 1'', ''2 1''], []) = Some (Same_card (1, 0), g2, w2)"
    using example_same by (cases "turn example_game ([''2 1'', ''2 1''], [])") auto
  from abandoned_pass_restores [OF example_ok example_settled t2, of "(1, 0)" "(1, 0)"]
  show ?thesis
    using example_ok example_settled t2 by simp
qed

text \<open>
  C7: a line is rejected by \<open>readPos\<close> exactly when it does not yield two integers or
  the integers are not 1-based coordinates of the grid. Rejected lines, however many, are
  answered by the prompt and the diagnostic only: \<open>readPos\<close> goes on with the next line as
  if they had not been there, and the pass ends with the same outcome, the same board and
  the same counter of moves. When every line is rejected \<open>readPos\<close> never returns.
\<close>

theorem rejected_input_changes_nothing:
  "(parse_pos g l = None \<longleftrightarrow>
      (case extract2 l of
         None \<Rightarrow> True
       | Some (r, c) \<Rightarrow> \<not> (1 \<le> sint r \<and> sint r \<le> sint (rows (board g))
                         \<and> 1 \<le> sint c \<and> sint c \<le> sint (cols (board g)))))
   \<and> ((\<forall>l \<in> set bad. parse_pos g l = None) \<longrightarrow>
        readPos g prompt (bad @ rest, out)
          = readPos g prompt
              (rest, out @ concat (map (\<lambda>l. [Say prompt, Say invalid_input]) bad))
        \<and> readPos g prompt (bad, out) = None
        \<and> (parse_pos g l1 \<noteq> None \<and> (\<forall>l \<in> set bad2. parse_pos g l = None) \<longrightarrow>
             verdict (turn g (bad @ l1 # bad2 @ ins, out)) = verdict (turn g (l1 # ins, out))))"
proof -
  have 3: "verdict (turn g (bad @ l1 # bad2 @ ins, out)) = verdict (turn g (l1 # ins, out))"
    if h: "\<forall>l \<in> set bad. parse_pos g l = None" "\<forall>l \<in> set bad2. parse_pos g l = None"
      "parse_pos g l1 \<noteq> None"
  proof -
    obtain r1 c1 where "parse_pos g l1 = Some (r1, c1)"
      using h(3) by (cases "parse_pos g l1") auto
    with h(1,2) show ?thesis by (intro turn_skips_rejected)
  qed
  show ?thesis
    using readPos_skips [of bad g prompt rest out] readPos_hangs [of bad g prompt out] 3
    by (simp add: parse_pos_None_iff)
qed

theorem rejected_input_changes_nothing_witness:
  "parse_pos example_game ''3 1'' = None
   \<and> readPos example_game first_prompt
       ([''0 1'', ''two 2'', ''3 1'', ''''] @ [''2 2 please''], [])
     = Some ((1, 1), ([],
         [Say first_prompt, Say invalid_input, Say first_prompt, Say invalid_input,
          Say first_prompt, Say invalid_input, Say first_prompt, Say invalid_input,
          Say first_prompt]))
   \<and> readPos example_game first_prompt ([''0 1'', ''two 2'', ''3 1'', ''''], []) = None
   \<and> verdict (turn example_game
        ([''0 1'', ''two 2'', ''3 1'', ''''] @ ''1 1'' # [''0 1'', ''two 2'', ''3 1'', ''''] @ [''2 2''], []))
     = verdict (turn example_game (''1 1'' # [''2 2''], []))"
proof -
  have a: "parse_pos example_game ''2 2 please'' = Some (1, 1)" by code_simp
  show ?thesis
    using example_rejected example_accepted a
      rejected_input_changes_nothing [of example_game "''3 1''"
        "[''0 1'', ''two 2'', ''3 1'', '''']" first_prompt "[''2 2 please'']" "[]"
        "''1 1''" "[''0 1'', ''two 2'', ''3 1'', '''']" "[''2 2'']"]
    by simp
qed

section \<open>Runs of the whole program\<close>

text \<open>
  The model runs: a game of two rows and two columns played to its end, a game with a
  mismatch on the way, an input that ends too early, and dimensions whose product wraps.
\<close>

lemma example_playthrough:
  "map_option (\<lambda>(code, w, err). (code, fst w, err))
     (main (\<lambda>i. 0) ([''2 2'', '''', ''1 1'', ''2 2'', ''1 2'', ''2 1''], []))
   = Some (0, [], [])"
  by code_simp

lemma example_moves:
  "map_option (\<lambda>(g, w). (moves g, allMatched (board g)))
     (play example_game (['''', ''1 1'', ''1 2'', ''ok'', ''1 1'', ''2 2'', ''1 2'', ''2 1''], []))
   = Some (3, True)"
  by code_simp

lemma example_hangs:
  "main (\<lambda>i. 0) ([''2 2'', '''', ''1 1'', ''2 2'', ''9 9''], []) = None"
  by code_simp

lemma example_overflow:
  "map_option (\<lambda>(code, w, err). (code, err)) (main (\<lambda>i. 0) ([''2 1073741824''], []))
   = Some (1, [Say ''Error: '', Say ''vector::reserve''])"
  by code_simp

section \<open>The start of the program\<close>

lemma startup_eq:
  "startup (ins, out) =
    (let line = (case ins of [] \<Rightarrow> [] | l # ls \<Rightarrow> l);
         w1 = (tl ins, out @ size_prompt)
     in if line = [] then (4, 4, w1)
        else case extract2 line of
               None \<Rightarrow> (4, 4, put [Say invalid_line] w1)
             | Some (r, c) \<Rightarrow>
                 if r \<le>s 0 \<or> c \<le>s 0 \<or> int_mod (r * c) 2 \<noteq> 0
                 then (4, 4, put [Say invalid_dimensions] w1)
                 else (r, c, w1))"
proof -
  have four: "\<not> (4 :: cint) \<le>s 0" "int_mod (16 :: cint) 2 = 0"
    by (simp_all add: int_mod_def word_sle_eq)
  show ?thesis
    by (cases ins)
      (auto simp add: startup_def Let_def put_def getline_def four split: option.splits)
qed

lemma guard_iff:
  "r \<le>s 0 \<or> c \<le>s 0 \<or> int_mod (r * c) 2 \<noteq> 0
     \<longleftrightarrow> sint r \<le> 0 \<or> sint c \<le> 0 \<or> odd (sint r * sint c)"
  by (simp add: int_mod_2 odd_sint_mult word_sle_eq del: even_mult_iff)

text \<open>
  C9, as the code has it: an empty line (or no line at all) gives the default 4 by 4
  without any diagnostic; a line from which two integers cannot be read gives 4 by 4
  with the message \<open>invalid_line\<close>; a line with two integers of which one is not positive,
  or whose product is odd, gives 4 by 4 with the message \<open>invalid_dimensions\<close>; any other
  line gives its two integers. The dimensions handed on always pass the guard of the
  constructor, so its invalid-configuration error is never raised from \<open>main\<close>.
\<close>

theorem startup_falls_back:
  assumes "startup (ins, out) = (r, c, w')"
    and "line = (case ins of [] \<Rightarrow> [] | l # ls \<Rightarrow> l)"
  shows "(line = [] \<longrightarrow> (r, c) = (4, 4) \<and> snd w' = out @ size_prompt)
    \<and> (line \<noteq> [] \<and> extract2 line = None \<longrightarrow>
         (r, c) = (4, 4) \<and> snd w' = out @ size_prompt @ [Say invalid_line])
    \<and> (line \<noteq> [] \<and> extract2 line = Some (r0, c0)
         \<and> (sint r0 \<le> 0 \<or> sint c0 \<le> 0 \<or> odd (sint r0 * sint c0)) \<longrightarrow>
         (r, c) = (4, 4) \<and> snd w' = out @ size_prompt @ [Say invalid_dimensions])
    \<and> (line \<noteq> [] \<and> extract2 line = Some (r0, c0)
         \<and> 0 < sint r0 \<and> 0 < sint c0 \<and> even (sint r0 * sint c0) \<longrightarrow>
         (r, c) = (r0, c0) \<and> snd w' = out @ size_prompt)
    \<and> 0 < sint r \<and> 0 < sint c \<and> even (sint r * sint c)
    \<and> Game r c gen \<noteq> Inl Invalid_configuration
    \<and> (\<forall>code w'' err. main gen (ins, out) = Some (code, w'', err) \<longrightarrow>
          err \<noteq> [Say ''Error: '', Say (what Invalid_configuration)])"
proof -
  have s: "(r, c, w') =
    (if line = [] then (4, 4, (tl ins, out @ size_prompt))
     else case extract2 line of
            None \<Rightarrow> (4, 4, put [Say invalid_line] (tl ins, out @ size_prompt))
          | Some (r, c) \<Rightarrow>
              if sint r \<le> 0 \<or> sint c \<le> 0 \<or> odd (sint r * sint c)
              then (4, 4, put [Say invalid_dimensions] (tl ins, out @ size_prompt))
              else (r, c, (tl ins, out @ size_prompt)))"
    using assms(1) unfolding startup_eq Let_def assms(2) [symmetric] guard_iff by simp
  have branches: "(line = [] \<longrightarrow> (r, c) = (4, 4) \<and> snd w' = out @ size_prompt)
    \<and> (line \<noteq> [] \<and> extract2 line = None \<longrightarrow>
         (r, c) = (4, 4) \<and> snd w' = out @ size_prompt @ [Say invalid_line])
    \<and> (line \<noteq> [] \<and> extract2 line = Some (r0, c0)
         \<and> (sint r0 \<le> 0 \<or> sint c0 \<le> 0 \<or> odd (sint r0 * sint c0)) \<longrightarrow>
         (r, c) = (4, 4) \<and> snd w' = out @ size_prompt @ [Say invalid_dimensions])
    \<and> (line \<noteq> [] \<and> extract2 line = Some (r0, c0)
         \<and> 0 < sint r0 \<and> 0 < sint c0 \<and> even (sint r0 * sint c0) \<longrightarrow>
         (r, c) = (r0, c0) \<and> snd w' = out @ size_prompt)"
    using s by (auto simp add: put_def simp del: even_mult_iff)
  have good: "0 < sint r \<and> 0 < sint c \<and> even (sint r * sint c)"
    using s by (auto simp del: even_mult_iff split: if_splits option.splits)
  then have g: "Game r c gen \<noteq> Inl Invalid_configuration"
    using Board_invalid_iff [of r c gen]
    by (auto simp add: Game_def simp del: even_mult_iff split: sum.splits)
  have m: "err \<noteq> [Say ''Error: '', Say (what Invalid_configuration)]"
    if h: "main gen (ins, out) = Some (code, w'', err)" for code w'' err
  proof (cases "Game r c gen")
    case (Inl e)
    with g have "e = Length_error" by (cases e) simp_all
    with Inl h show ?thesis
      by (auto simp add: main_def assms(1) what_def)
  next
    case (Inr g0)
    with h show ?thesis
      by (auto simp add: main_def assms(1) split: option.splits)
  qed
  from branches good g m show ?thesis by blast
qed

theorem startup_falls_back_witness:
  "startup ([''3 3''], []) = (4, 4, ([], size_prompt @ [Say invalid_dimensions]))
   \<and> startup ([''3 x''], []) = (4, 4, ([], size_prompt @ [Say invalid_line]))
   \<and> startup ([''6 3 x''], []) = (6, 3, ([], size_prompt))
   \<and> startup ([], []) = (4, 4, ([], size_prompt))
   \<and> Game 4 4 (\<lambda>i. i) \<noteq> Inl Invalid_configuration
   \<and> Game 6 3 (\<lambda>i. i) \<noteq> Inl Invalid_configuration"
proof -
  have s1: "startup ([''3 3''], []) = (4, 4, ([], size_prompt @ [Say invalid_dimensions]))"
    by code_simp
  have s2: "startup ([''3 x''], []) = (4, 4, ([], size_prompt @ [Say invalid_line]))"
    by code_simp
  have s3: "startup ([''6 3 x''], []) = (6, 3, ([], size_prompt))"
    by code_simp
  have s4: "startup ([], []) = (4, 4, ([], size_prompt))"
    by code_simp
  from startup_falls_back [OF s1 refl, of 3 3 "\<lambda>i. i"]
  have g1: "Game 4 4 (\<lambda>i. i) \<noteq> Inl Invalid_configuration" by blast
  from startup_falls_back [OF s3 refl, of 6 3 "\<lambda>i. i"]
  have g2: "Game 6 3 (\<lambda>i. i) \<noteq> Inl Invalid_configuration" by blast
  from s1 s2 s3 s4 g1 g2 show ?thesis by blast
qed

theorem silent_default_counterexample:
  "startup ([''''], []) = (4, 4, ([], size_prompt))
   \<and> Say invalid_line \<notin> set size_prompt
   \<and> Say invalid_dimensions \<notin> set size_prompt"
proof -
  have 1: "startup ([''''], []) = (4, 4, ([], size_prompt))" by code_simp
  have 2: "Say invalid_line \<notin> set size_prompt" by code_simp
  have 3: "Say invalid_dimensions \<notin> set size_prompt" by code_simp
  from 1 2 3 show ?thesis by blast
qed

section \<open>Reading coordinates\<close>

lemma space_is_no_digit: "isspace ch \<Longrightarrow> \<not> isdigit ch"
  by (auto simp add: isspace_def isdigit_def)

lemma takeWhile_all:
  assumes "list_all P xs" "ys = [] \<or> \<not> P (hd ys)"
  shows "takeWhile P (xs @ ys) = xs" and "dropWhile P (xs @ ys) = ys"
proof -
  have a: "\<forall>x \<in> set xs. P x" using assms(1) by (simp add: list_all_iff)
  have t: "takeWhile P ys = []" and d: "dropWhile P ys = ys"
    using assms(2) by (cases ys; simp)+
  show "takeWhile P (xs @ ys) = xs" using a t by (simp add: takeWhile_append2)
  show "dropWhile P (xs @ ys) = ys" using a d by (simp add: dropWhile_append2)
qed

text \<open>A token that is an integer, standing first on a line, is what \<open>extract_int\<close> reads.\<close>

lemma extract_int_token:
  assumes s: "dropWhile isspace s = t @ rest"
    and b: "rest = [] \<or> isspace (hd rest)"
    and v: "integer_token t = Some v"
    and r: "- (2 ^ 31) \<le> v" "v < 2 ^ 31"
  shows "extract_int s = Some (word_of_int v, rest)"
proof -
  define ds where "ds = (if t \<noteq> [] \<and> (hd t = CHR ''-'' \<or> hd t = CHR ''+'') then tl t else t)"
  have ds: "ds \<noteq> []" "list_all isdigit ds"
    and val: "v = (if t \<noteq> [] \<and> hd t = CHR ''-'' then - decimal 0 ds else decimal 0 ds)"
    using v unfolding integer_token_def Let_def ds_def [symmetric]
    by (auto split: if_splits)
  have t: "t \<noteq> []" using ds(1) by (auto simp add: ds_def split: if_splits)
  have h: "hd (t @ rest) = hd t" and ne: "(t @ rest \<noteq> []) = True" using t by simp_all
  have s2: "(if True \<and> (hd t = CHR ''-'' \<or> hd t = CHR ''+'') then tl (t @ rest) else t @ rest)
      = ds @ rest"
    using t by (simp add: ds_def)
  have nd: "rest = [] \<or> \<not> isdigit (hd rest)" using b space_is_no_digit by blast
  note tw = takeWhile_all [OF ds(2) nd]
  have n: "number (True \<and> hd t = CHR ''-'') ds = Some (word_of_int v)"
    using ds(1) r t by (simp add: number_def val)
  show ?thesis
    apply (simp only: extract_int_def Let_def s h ne)
    apply (simp only: s2 tw n option.case)
    done
qed

lemma tokens_Cons:
  assumes "tokens s = t # ts"
  obtains rest where "dropWhile isspace s = t @ rest" "rest = [] \<or> isspace (hd rest)"
    "tokens rest = ts"
proof -
  let ?s1 = "dropWhile isspace s"
  let ?rest = "dropWhile (\<lambda>ch. \<not> isspace ch) ?s1"
  have eq: "tokens s =
      (if ?s1 = [] then [] else takeWhile (\<lambda>ch. \<not> isspace ch) ?s1 # tokens ?rest)"
    by (rule tokens.simps)
  have ne: "?s1 \<noteq> []"
  proof
    assume "?s1 = []"
    with eq have "tokens s = []" by simp
    with assms show False by simp
  qed
  with eq have "tokens s = takeWhile (\<lambda>ch. \<not> isspace ch) ?s1 # tokens ?rest" by simp
  with assms have t: "t = takeWhile (\<lambda>ch. \<not> isspace ch) ?s1" and ts: "ts = tokens ?rest"
    by simp_all
  have 1: "?s1 = t @ ?rest" by (simp add: t)
  have 2: "?rest = [] \<or> isspace (hd ?rest)"
    using hd_dropWhile [of "\<lambda>ch. \<not> isspace ch" ?s1] by auto
  from 1 2 ts that show thesis by blast
qed

lemma sint_word_of_int_small:
  assumes "- (2 ^ 31) \<le> v" "v < 2 ^ 31"
  shows "sint (word_of_int v :: cint) = v"
  using assms by (simp add: sint_sbintrunc' signed_take_bit_int_eq_self)

lemma parse_pos_Some_iff:
  "parse_pos g line = Some p \<longleftrightarrow>
     (\<exists>r c. extract2 line = Some (r, c)
        \<and> 1 \<le> sint r \<and> sint r \<le> sint (rows (board g))
        \<and> 1 \<le> sint c \<and> sint c \<le> sint (cols (board g))
        \<and> p = (r - 1, c - 1))"
  by (auto simp add: parse_pos_def valid_pred split: option.splits)

lemma claimed_is_accepted:
  assumes "claimed_parse_pos g line = Some p"
  shows "parse_pos g line = Some p"
proof -
  obtain t1 t2 ts where tk: "tokens line = t1 # t2 # ts"
    using assms unfolding claimed_parse_pos_def
    by (auto split: list.splits)
  obtain r c where i: "integer_token t1 = Some r" "integer_token t2 = Some c"
    using assms unfolding claimed_parse_pos_def tk
    by (auto split: option.splits)
  have rng: "1 \<le> r" "r \<le> sint (rows (board g))" "1 \<le> c" "c \<le> sint (cols (board g))"
    and p: "p = (word_of_int (r - 1), word_of_int (c - 1))"
    using assms unfolding claimed_parse_pos_def tk
    by (auto simp add: i split: if_splits)
  have r31: "- (2 ^ 31) \<le> r" "r < 2 ^ 31"
    using rng(1,2) sint_lt [of "rows (board g)"] by simp_all
  have c31: "- (2 ^ 31) \<le> c" "c < 2 ^ 31"
    using rng(3,4) sint_lt [of "cols (board g)"] by simp_all
  from tk obtain rest1 where 1: "dropWhile isspace line = t1 @ rest1"
    "rest1 = [] \<or> isspace (hd rest1)" "tokens rest1 = t2 # ts"
    by (rule tokens_Cons)
  from 1(3) obtain rest2 where 2: "dropWhile isspace rest1 = t2 @ rest2"
    "rest2 = [] \<or> isspace (hd rest2)"
    by (rule tokens_Cons)
  have "extract2 line = Some (word_of_int r, word_of_int c)"
    by (simp add: extract2_def extract_int_token [OF 1(1,2) i(1) r31]
        extract_int_token [OF 2 i(2) c31])
  then show ?thesis
    using rng
    by (simp add: parse_pos_Some_iff p sint_word_of_int_small [OF r31]
        sint_word_of_int_small [OF c31])
qed

text \<open>What follows the integer that \<open>extract_int\<close> reads has no influence on it.\<close>

lemma extract_int_append:
  assumes e: "extract_int s = Some (v, rest)"
    and x: "rest \<noteq> [] \<or> extra = [] \<or> \<not> isdigit (hd extra)"
  shows "extract_int (s @ extra) = Some (v, rest @ extra)"
proof -
  define s1 where "s1 = dropWhile isspace s"
  define s2 where "s2 = (if s1 \<noteq> [] \<and> (hd s1 = CHR ''-'' \<or> hd s1 = CHR ''+'') then tl s1 else s1)"
  obtain n: "number (s1 \<noteq> [] \<and> hd s1 = CHR ''-'') (takeWhile isdigit s2) = Some v"
    and rest: "rest = dropWhile isdigit s2"
    using e unfolding extract_int_def Let_def s1_def [symmetric] s2_def [symmetric]
    by (auto split: option.splits)
  have ds: "takeWhile isdigit s2 \<noteq> []"
    using n by (auto simp add: number_def Let_def)
  have s2ne: "s2 \<noteq> []" using ds by auto
  then have s1ne: "s1 \<noteq> []" by (auto simp add: s2_def split: if_splits)
  then have "hd s1 \<in> set s" "\<not> isspace (hd s1)"
    using hd_dropWhile [of isspace s] set_dropWhileD [of "hd s1" isspace s]
    by (simp_all add: s1_def)
  then have d1: "dropWhile isspace (s @ extra) = s1 @ extra"
    unfolding s1_def by (rule dropWhile_append1)
  have h: "hd (s1 @ extra) = hd s1" and ne: "(s1 @ extra \<noteq> []) = True" "(s1 \<noteq> []) = True"
    using s1ne by simp_all
  have d2: "(if True \<and> (hd s1 = CHR ''-'' \<or> hd s1 = CHR ''+'') then tl (s1 @ extra) else s1 @ extra)
      = s2 @ extra"
    using s1ne by (simp add: s2_def)
  have tk: "takeWhile isdigit (s2 @ extra) = takeWhile isdigit s2
      \<and> dropWhile isdigit (s2 @ extra) = dropWhile isdigit s2 @ extra"
  proof (cases "rest = []")
    case True
    then have all: "list_all isdigit s2"
      by (simp add: rest list_all_iff dropWhile_eq_Nil_conv)
    from True x have "extra = [] \<or> \<not> isdigit (hd extra)" by simp
    note app = takeWhile_all [OF all this]
    have "takeWhile isdigit s2 = s2" "dropWhile isdigit s2 = []"
      using all by (simp_all add: list_all_iff)
    then show ?thesis by (simp only: app append_Nil simp_thms)
  next
    case False
    then obtain y where "y \<in> set s2" "\<not> isdigit y"
      by (auto simp add: rest dropWhile_eq_Nil_conv)
    then show ?thesis
      by (simp add: takeWhile_append1 dropWhile_append1)
  qed
  have n': "number (True \<and> hd s1 = CHR ''-'') (takeWhile isdigit s2) = Some v"
    using n s1ne by simp
  show ?thesis
    apply (simp only: extract_int_def Let_def d1 h ne)
    apply (simp only: d2 tk n' option.case rest)
    done
qed

lemma extract2_append:
  assumes "extract2 line = Some (r, c)" and "extra = [] \<or> \<not> isdigit (hd extra)"
  shows "extract2 (line @ extra) = Some (r, c)"
proof -
  obtain rest1 rest2 where 1: "extract_int line = Some (r, rest1)"
    and 2: "extract_int rest1 = Some (c, rest2)"
    using assms(1) by (auto simp add: extract2_def split: option.splits)
  have "rest1 \<noteq> []"
    using 2 by (auto simp add: extract_int_def number_def Let_def split: option.splits)
  then have "extract_int (line @ extra) = Some (r, rest1 @ extra)"
    using 1 by (intro extract_int_append) simp_all
  moreover have "extract_int (rest1 @ extra) = Some (c, rest2 @ extra)"
    using 2 assms(2) by (intro extract_int_append) auto
  ultimately show ?thesis by (simp add: extract2_def)
qed

text \<open>
  C10, as the code has it: a line is accepted exactly when two integers can be read
  from it one after the other the way \<open>>>\<close> reads them (white space is skipped before
  each, but none is needed between them when the second carries a sign) and they are
  1-based coordinates of the grid; the result is the 0-based pair. Every line whose first
  two tokens are integers within the grid is accepted, with that pair. What follows the
  second integer is ignored, by \<open>readPos\<close> and by the startup line alike.
\<close>

theorem coordinate_parsing:
  "(parse_pos g line = Some p \<longleftrightarrow>
      (\<exists>r c. extract2 line = Some (r, c)
         \<and> 1 \<le> sint r \<and> sint r \<le> sint (rows (board g))
         \<and> 1 \<le> sint c \<and> sint c \<le> sint (cols (board g))
         \<and> p = (r - 1, c - 1)))
   \<and> (claimed_parse_pos g line = Some p \<longrightarrow> parse_pos g line = Some p)
   \<and> ((extra = [] \<or> \<not> isdigit (hd extra)) \<and> parse_pos g line = Some p \<longrightarrow>
        parse_pos g (line @ extra) = Some p)
   \<and> ((extra = [] \<or> \<not> isdigit (hd extra)) \<and> extract2 line \<noteq> None \<longrightarrow>
        startup ((line @ extra) # ins, out) = startup (line # ins, out))"
proof -
  have 3: "parse_pos g (line @ extra) = Some p"
    if h: "extra = [] \<or> \<not> isdigit (hd extra)" "parse_pos g line = Some p"
  proof -
    from h(2) obtain r c where e: "extract2 line = Some (r, c)"
      by (auto simp add: parse_pos_Some_iff)
    from extract2_append [OF e h(1)] e h(2) show ?thesis
      by (simp add: parse_pos_def)
  qed
  have 4: "startup ((line @ extra) # ins, out) = startup (line # ins, out)"
    if h: "extra = [] \<or> \<not> isdigit (hd extra)" "extract2 line \<noteq> None"
  proof -
    from h(2) obtain r c where e: "extract2 line = Some (r, c)" by auto
    have "extract2 [] = None"
      by (simp add: extract2_def extract_int_def number_def)
    with e have "line \<noteq> []" by auto
    then show ?thesis
      by (simp add: startup_eq extract2_append [OF e h(1)] e)
  qed
  from 3 4 claimed_is_accepted [of g line p] parse_pos_Some_iff [of g line p]
  show ?thesis by blast
qed

theorem coordinate_parsing_witness:
  "claimed_parse_pos example_game ''2 1'' = Some (1, 0)
   \<and> parse_pos example_game ''2 1'' = Some (1, 0)
   \<and> parse_pos example_game (''2 1'' @ '' please'') = Some (1, 0)
   \<and> startup ((''6 3'' @ ''x3'') # [], []) = startup (''6 3'' # [], [])"
proof -
  have c: "claimed_parse_pos example_game ''2 1'' = Some (1, 0)" by code_simp
  have d: "\<not> isdigit (hd '' please'')" "\<not> isdigit (hd ''x3'')" by code_simp+
  have e: "extract2 ''6 3'' \<noteq> None" by code_simp
  from c d e
    coordinate_parsing [of example_game "''2 1''" "(1, 0)" "'' please''" "[]" "[]"]
    coordinate_parsing [of example_game "''6 3''" "(5, 2)" "''x3''" "[]" "[]"]
  show ?thesis by blast
qed

theorem unseparated_integers_counterexample:
  "parse_pos example_game ''1+1'' = Some (0, 0)
   \<and> tokens ''1+1'' = [''1+1'']
   \<and> claimed_parse_pos example_game ''1+1'' = None"
proof -
  have 1: "parse_pos example_game ''1+1'' = Some (0, 0)" by code_simp
  have 2: "tokens ''1+1'' = [''1+1'']" by code_simp
  have 3: "claimed_parse_pos example_game ''1+1'' = None" by code_simp
  from 1 2 3 show ?thesis by blast
qed

end
